theory Spec2Isabelle
  imports Main "HOL-Library.AList"
begin

section \<open>JavaScript values\<close>

text \<open>
  The two source files work on untyped JavaScript values.  A value is a primitive, a date, a
  function or an object.  An object is the list of its own enumerable properties in the order in
  which \<^verbatim>\<open>_.keys\<close> lists them; an array is an object of kind \<open>Array\<close> whose properties are
  its indices (\<^verbatim>\<open>''0''\<close>, \<^verbatim>\<open>''1''\<close>, ...), so that \<^verbatim>\<open>_.keys\<close>, \<^verbatim>\<open>hasOwnProperty\<close>,
  assignment and \<^verbatim>\<open>delete\<close> treat both alike, as they do in the source.

  Boundaries of the model, which hold for every definition below:
  \<^item> numbers are integers (no fractions, no NaN);
  \<^item> \<open>JDate s\<close> stands for \<^verbatim>\<open>new Date(s)\<close>, the date parsed from the text \<open>s\<close>;
  \<^item> values are trees: no object is reachable along two paths, so that updating a nested object
    in place is the same as writing the updated object back under its key;
  \<^item> a key written for the first time is appended after the existing keys (JavaScript moves a new
    key that is an array index in front of the others); no function below depends on the
    position of a key it has written, and results are compared as finite maps (\<open>map_of\<close>);
  \<^item> objects and arrays have the built-in prototypes, and no object has an own property
    \<^verbatim>\<open>__proto__\<close>, nor is that key written: an assignment to it would set the prototype.
\<close>

datatype okind = Plain | Array

datatype jsval =
    JUndefined
  | JNull
  | JBool bool
  | JNum int
  | JStr string
  | JDate string
  | JFun nat
  | JObj okind "(string \<times> jsval) list"

type_synonym props = "(string \<times> jsval) list"

text \<open>Truthiness, as tested by \<^verbatim>\<open>if (x)\<close>, \<^verbatim>\<open>!x\<close> and \<^verbatim>\<open>a || b\<close>.\<close>

fun truthy :: "jsval \<Rightarrow> bool" where
  "truthy JUndefined = False"
| "truthy JNull = False"
| "truthy (JBool b) = b"
| "truthy (JNum n) = (n \<noteq> 0)"
| "truthy (JStr s) = (s \<noteq> [])"
| "truthy (JDate s) = True"
| "truthy (JFun f) = True"
| "truthy (JObj k es) = True"

definition js_or :: "jsval \<Rightarrow> jsval \<Rightarrow> jsval" where
  "js_or a b = (if truthy a then a else b)"

text \<open>The lodash type tests used by the source.\<close>

fun isUndefined :: "jsval \<Rightarrow> bool" where
  "isUndefined JUndefined = True"
| "isUndefined _ = False"

fun isString :: "jsval \<Rightarrow> bool" where
  "isString (JStr s) = True"
| "isString _ = False"

fun isFunction :: "jsval \<Rightarrow> bool" where
  "isFunction (JFun f) = True"
| "isFunction _ = False"

fun isArray :: "jsval \<Rightarrow> bool" where
  "isArray (JObj Array es) = True"
| "isArray _ = False"

fun isPlainObject :: "jsval \<Rightarrow> bool" where
  "isPlainObject (JObj Plain es) = True"
| "isPlainObject _ = False"

fun isObject :: "jsval \<Rightarrow> bool" where
  "isObject (JObj k es) = True"
| "isObject (JFun f) = True"
| "isObject (JDate s) = True"
| "isObject _ = False"

text \<open>
  Own properties.  \<^verbatim>\<open>utils.object.hasOwnProperty\<close> (\<^verbatim>\<open>lib/offshore/utils/helpers\<close>) is not among
  the source files; it is taken to be what its name says, the test for an own property.
  \<open>obj[k] = v\<close> is \<^const>\<open>AList.update\<close> (the value is replaced where the key exists, the pair is
  appended otherwise) and \<^verbatim>\<open>delete obj[k]\<close> is \<^const>\<open>AList.delete\<close>.
\<close>

definition hasOwnProperty :: "(string \<times> 'a) list \<Rightarrow> string \<Rightarrow> bool" where
  "hasOwnProperty obj k = (map_of obj k \<noteq> None)"

definition js_get :: "props \<Rightarrow> string \<Rightarrow> jsval" where
  "js_get obj k = (case map_of obj k of Some v \<Rightarrow> v | None \<Rightarrow> JUndefined)"

text \<open>
  \<^const>\<open>js_get\<close> reads an own property.  It stands for \<^verbatim>\<open>obj[k]\<close> where the key is an own
  property of the object, or is none of the names below.  A read \<^verbatim>\<open>obj[k]\<close> of a plain object
  at any other key goes on to \<^verbatim>\<open>Object.prototype\<close>, whose properties are eleven functions
  (numbered 0 to 10 here) and \<^verbatim>\<open>__proto__\<close>, which reads as the prototype itself, an object
  without enumerable properties.  Beside each is the text JavaScript makes of it where it is
  used as a key.
\<close>

definition object_prototype :: "(string \<times> jsval \<times> string) list" where
  "object_prototype =
     [(''constructor'', JFun 0, ''function Object() { [native code] }''),
      (''toString'', JFun 1, ''function toString() { [native code] }''),
      (''toLocaleString'', JFun 2, ''function toLocaleString() { [native code] }''),
      (''valueOf'', JFun 3, ''function valueOf() { [native code] }''),
      (''hasOwnProperty'', JFun 4, ''function hasOwnProperty() { [native code] }''),
      (''isPrototypeOf'', JFun 5, ''function isPrototypeOf() { [native code] }''),
      (''propertyIsEnumerable'', JFun 6, ''function propertyIsEnumerable() { [native code] }''),
      (''__defineGetter__'', JFun 7, ''function __defineGetter__() { [native code] }''),
      (''__defineSetter__'', JFun 8, ''function __defineSetter__() { [native code] }''),
      (''__lookupGetter__'', JFun 9, ''function __lookupGetter__() { [native code] }''),
      (''__lookupSetter__'', JFun 10, ''function __lookupSetter__() { [native code] }''),
      (''__proto__'', JObj Plain [], ''[object Object]'')]"

definition inherited :: "string \<Rightarrow> jsval" where
  "inherited k = (case map_of object_prototype k of Some e \<Rightarrow> fst e | None \<Rightarrow> JUndefined)"

definition js_read :: "props \<Rightarrow> string \<Rightarrow> jsval" where
  "js_read obj k = (case map_of obj k of Some v \<Rightarrow> v | None \<Rightarrow> inherited k)"

text \<open>\<^verbatim>\<open>v.k\<close> for a value \<open>v\<close> that is neither \<^verbatim>\<open>undefined\<close> nor \<^verbatim>\<open>null\<close>.\<close>

fun js_prop :: "jsval \<Rightarrow> string \<Rightarrow> jsval" where
  "js_prop (JObj k es) p = js_get es p"
| "js_prop _ p = JUndefined"

text \<open>
  \<^verbatim>\<open>_.keys(v)\<close>.  For a string lodash lists the indices of its characters; the source either
  returns before it asks for the keys of a string or only writes to the string, which has no
  effect, so the keys of a string are left out.
\<close>

fun js_keys :: "jsval \<Rightarrow> string list" where
  "js_keys (JObj k es) = map fst es"
| "js_keys _ = []"

text \<open>
  The test for a key that is an array index; the array \<^verbatim>\<open>[x, y]\<close> is
  \<open>JObj Array [(''0'', x), (''1'', y)]\<close>.
\<close>

definition is_index :: "string \<Rightarrow> bool" where
  "is_index s = (s \<noteq> [] \<and> list_all (\<lambda>c. c \<in> set ''0123456789'') s \<and> (s = ''0'' \<or> hd s \<noteq> CHR ''0''))"

text \<open>The nesting depth of a value bounds the recursion of \<^verbatim>\<open>recursiveSerialize\<close>.\<close>

primrec depth :: "jsval \<Rightarrow> nat" where
  "depth JUndefined = 0"
| "depth JNull = 0"
| "depth (JBool b) = 0"
| "depth (JNum n) = 0"
| "depth (JStr s) = 0"
| "depth (JDate s) = 0"
| "depth (JFun f) = 0"
| "depth (JObj k es) = Suc (fold max (map snd (map (map_prod id depth) es)) 0)"

text \<open>
  Errors thrown by the source; \<open>Diverged\<close> is the model running out of recursion depth and
  \<open>Unmodelled\<close> an input outside the model.
\<close>

datatype js_error = ConfigError string | TypeError | Diverged | Unmodelled

text \<open>\<^verbatim>\<open>forEach\<close> with a body that can throw, and with a body that can fail to return.\<close>

fun forEachE :: "('a \<Rightarrow> 's \<Rightarrow> js_error + 's) \<Rightarrow> 'a list \<Rightarrow> 's \<Rightarrow> js_error + 's" where
  "forEachE f [] s = Inr s"
| "forEachE f (x # xs) s = (case f x s of Inl e \<Rightarrow> Inl e | Inr s' \<Rightarrow> forEachE f xs s')"

fun forEachO :: "('a \<Rightarrow> 's \<Rightarrow> 's option) \<Rightarrow> 'a list \<Rightarrow> 's \<Rightarrow> 's option" where
  "forEachO f [] s = Some s"
| "forEachO f (x # xs) s = (case f x s of None \<Rightarrow> None | Some s' \<Rightarrow> forEachO f xs s')"

section \<open>The attribute transformer (\<^verbatim>\<open>lib/offshore/core/transformations.js\<close>)\<close>

text \<open>
  A \<^verbatim>\<open>Transformation\<close> holds the attribute declarations (\<^verbatim>\<open>self.attributes\<close>) and the map from
  attribute names to column names (\<^verbatim>\<open>self._transformations\<close>).
\<close>

type_synonym tmap = "(string \<times> string) list"

record transformation =
  attributes :: props
  transformations :: tmap

text \<open>
  \<^verbatim>\<open>self._transformations[k]\<close> where the key is not known to be an own property (lines 91,
  100 and 193): the column name, or what \<^verbatim>\<open>Object.prototype\<close> has under the key; and the
  text of that value where it is used as a key in turn.
\<close>

definition transformation_at :: "tmap \<Rightarrow> string \<Rightarrow> jsval" where
  "transformation_at T k = (case map_of T k of Some c \<Rightarrow> JStr c | None \<Rightarrow> inherited k)"

definition transformation_key :: "tmap \<Rightarrow> string \<Rightarrow> string" where
  "transformation_key T k =
     (case map_of T k of
        Some c \<Rightarrow> c
      | None \<Rightarrow> (case map_of object_prototype k of
                   Some e \<Rightarrow> snd e
                 | None \<Rightarrow> ''undefined''))"

subsection \<open>\<^verbatim>\<open>Transformation.prototype.initialize\<close>\<close>

text \<open>The body of the inner loop, over the keys of one declaration (lines 54 to 70).\<close>

definition initialize_key :: "string \<Rightarrow> jsval \<Rightarrow> string \<Rightarrow> tmap \<Rightarrow> js_error + tmap" where
  "initialize_key attr decl key T =
     (if key \<noteq> ''columnName'' then Inr T
      else (case js_prop decl key of
              JStr c \<Rightarrow> if attr = c then Inr T else Inr (AList.update attr c T)
            | _ \<Rightarrow> Inl (ConfigError ''columnName transformation must be a string'')))"

text \<open>The body of the outer loop, over the attribute names (lines 41 to 71).\<close>

definition initialize_attr :: "props \<Rightarrow> string \<Rightarrow> tmap \<Rightarrow> js_error + tmap" where
  "initialize_attr attrs attr T =
     (let decl = js_get attrs attr in
      if isFunction decl \<or> isString decl then Inr T
      else if \<not> isObject decl then Inr T
      else forEachE (initialize_key attr decl) (js_keys decl) T)"

definition initialize :: "props \<Rightarrow> js_error + tmap" where
  "initialize attrs = forEachE (initialize_attr attrs) (map fst attrs) []"

text \<open>The constructor: \<^verbatim>\<open>new Transformation(attributes, tables)\<close>.\<close>

definition Transformation :: "props \<Rightarrow> js_error + transformation" where
  "Transformation attrs =
     (case initialize attrs of
        Inl e \<Rightarrow> Inl e
      | Inr T \<Rightarrow> Inr \<lparr>attributes = attrs, transformations = T\<rparr>)"

subsection \<open>\<^verbatim>\<open>recursiveSerialize\<close>\<close>

text \<open>
  Line 193: the attribute that governs a property is what \<^verbatim>\<open>self.attributes\<close> has under the
  property's own name, else what it has under the property's column name
  (\<^verbatim>\<open>self._transformations[property]\<close> is \<^verbatim>\<open>undefined\<close> for a property that is neither mapped
  nor inherited, and \<^verbatim>\<open>self.attributes[undefined]\<close> reads the key \<^verbatim>\<open>''undefined''\<close>), else the
  attribute in force before.  Neither read asks for an own property.  Line 194: its type.
\<close>

definition governing :: "transformation \<Rightarrow> string \<Rightarrow> jsval \<Rightarrow> jsval" where
  "governing self property parentAttr =
     js_or (js_read (attributes self) property)
       (js_or (js_read (attributes self) (transformation_key (transformations self) property))
          parentAttr)"

definition attr_type :: "jsval \<Rightarrow> jsval" where
  "attr_type parentAttr =
     (if truthy parentAttr then js_or (js_prop parentAttr ''type'') parentAttr else JNull)"

text \<open>
  \<^verbatim>\<open>recursiveSerialize(obj[key], parentAttr)\<close> updates the nested value in place; here the
  result is written back under the key.  Where the key is absent the call is on \<^verbatim>\<open>undefined\<close>
  and returns at once.
\<close>

definition in_place ::
  "(jsval \<Rightarrow> jsval \<Rightarrow> jsval option) \<Rightarrow> props \<Rightarrow> string \<Rightarrow> jsval \<Rightarrow> props option" where
  "in_place rec obj key parentAttr =
     (case map_of obj key of
        None \<Rightarrow> Some obj
      | Some v \<Rightarrow> (case rec v parentAttr of
                     None \<Rightarrow> None
                   | Some v' \<Rightarrow> Some (AList.update key v' obj)))"

text \<open>
  The body of the loop over the keys of \<open>obj\<close> (lines 187 to 225).  Its state is the object and
  the variable \<^verbatim>\<open>parentAttr\<close>, which the body assigns and the next iteration reads.  \<open>rec\<close> is
  the recursive call.
\<close>

definition visit ::
  "(jsval \<Rightarrow> jsval \<Rightarrow> jsval option) \<Rightarrow> transformation \<Rightarrow> string \<Rightarrow>
     props \<times> jsval \<Rightarrow> (props \<times> jsval) option" where
  "visit rec self property st =
     (case st of (obj, parentAttr0) \<Rightarrow>
      if \<not> hasOwnProperty obj property then Some (obj, parentAttr0)
      else
        let parentAttr = governing self property parentAttr0;
            ty = attr_type parentAttr;
            v = js_get obj property
        in
        if isArray v \<and> (property = ''or'' \<or> property = ''and'') then
          map_option (\<lambda>obj'. (obj', parentAttr)) (in_place rec obj property parentAttr)
        else if ty \<noteq> JStr ''json'' \<and> isPlainObject v then
          (case map_of (transformations self) property of
             Some c \<Rightarrow>
               map_option (\<lambda>obj'. (obj', parentAttr))
                 (in_place rec (AList.delete property (AList.update c v obj)) c parentAttr)
           | None \<Rightarrow>
               map_option (\<lambda>obj'. (obj', parentAttr)) (in_place rec obj property parentAttr))
        else
          let (obj1, property1) =
                (case map_of (transformations self) property of
                   Some c \<Rightarrow> (AList.update c v (AList.delete property obj), c)
                 | None \<Rightarrow> (obj, property));
              obj2 =
                (case js_get obj1 property1 of
                   JStr s \<Rightarrow>
                     if ty = JStr ''date'' \<or> ty = JStr ''datetime''
                     then AList.update property1 (JDate s) obj1 else obj1
                 | _ \<Rightarrow> obj1)
          in Some (obj2, parentAttr))"

text \<open>
  \<^verbatim>\<open>recursiveSerialize(obj, parentAttr)\<close>, with the depth of recursion that is left as first
  argument; \<open>None\<close> is a run that needs more.  For a string the source assigns the variable
  \<^verbatim>\<open>values\<close> of \<^verbatim>\<open>serialize\<close>; every recursive call is on an array or a plain object, so this
  happens in the outermost call only and is modelled in \<open>serialize\<close>.
\<close>

primrec recursiveSerialize :: "nat \<Rightarrow> transformation \<Rightarrow> jsval \<Rightarrow> jsval \<Rightarrow> jsval option" where
  "recursiveSerialize 0 self obj parentAttr = None"
| "recursiveSerialize (Suc n) self obj parentAttr =
     (if \<not> truthy obj then Some obj
      else if isString obj then Some obj
      else (case obj of
              JObj k es \<Rightarrow>
                map_option (\<lambda>st. JObj k (fst st))
                  (forEachO (visit (recursiveSerialize n self) self) (map fst es) (es, parentAttr))
            | _ \<Rightarrow> Some obj))"

subsection \<open>\<^verbatim>\<open>Transformation.prototype.serialize\<close>\<close>

text \<open>
  Lines 89 to 95 and 108 to 150: \<^verbatim>\<open>forEach\<close> visits the indices of the array; an entry is
  used as a key of \<^verbatim>\<open>self._transformations\<close>, and replaced by what is found there if that is
  truthy.  The key is the text of the entry: a string is its own text, and so have a number, a
  boolean, \<^verbatim>\<open>null\<close> and \<^verbatim>\<open>undefined\<close> theirs.  The text of an object, a date or a function,
  and of a number beyond \<open>2 ^ 53\<close>, is outside the model.
\<close>

fun decimal :: "nat \<Rightarrow> string" where
  "decimal n =
     (if n < 10 then [''0123456789'' ! n]
      else decimal (n div 10) @ [''0123456789'' ! (n mod 10)])"

declare decimal.simps [simp del]

fun to_key :: "jsval \<Rightarrow> string option" where
  "to_key (JStr s) = Some s"
| "to_key (JNum n) =
     (if 2 ^ 53 < \<bar>n\<bar> then None
      else if n < 0 then Some (CHR ''-'' # decimal (nat (- n)))
      else Some (decimal (nat n)))"
| "to_key (JBool b) = Some (if b then ''true'' else ''false'')"
| "to_key JNull = Some ''null''"
| "to_key JUndefined = Some ''undefined''"
| "to_key (JDate s) = None"
| "to_key (JFun f) = None"
| "to_key (JObj k es) = None"

definition transform_name :: "tmap \<Rightarrow> jsval \<Rightarrow> jsval option" where
  "transform_name T x =
     (case to_key x of
        None \<Rightarrow> None
      | Some k \<Rightarrow> Some (if truthy (transformation_at T k) then transformation_at T k else x))"

definition transform_entry :: "tmap \<Rightarrow> string \<times> jsval \<Rightarrow> (string \<times> jsval) option" where
  "transform_entry T e =
     (if is_index (fst e) then map_option (Pair (fst e)) (transform_name T (snd e)) else Some e)"

definition transform_array :: "tmap \<Rightarrow> string \<Rightarrow> props \<Rightarrow> props option" where
  "transform_array T field criteria =
     (case js_get criteria field of
        JObj Array xs \<Rightarrow>
          map_option (\<lambda>xs'. AList.update field (JObj Array xs') criteria)
            (those (map (transform_entry T) xs))
      | _ \<Rightarrow> Some criteria)"

text \<open>
  Lines 98 to 105: the keys of \<^verbatim>\<open>criteria.sort\<close>.  The value moves under the text of what
  \<^verbatim>\<open>self._transformations\<close> has under the key, if that is truthy.
\<close>

definition transform_sort_key :: "tmap \<Rightarrow> string \<Rightarrow> props \<Rightarrow> props" where
  "transform_sort_key T order_key sorting =
     (if truthy (transformation_at T order_key)
      then AList.delete order_key
             (AList.update (transformation_key T order_key) (js_get sorting order_key) sorting)
      else sorting)"

definition transform_sort :: "tmap \<Rightarrow> props \<Rightarrow> props" where
  "transform_sort T criteria =
     (case js_get criteria ''sort'' of
        JObj k sorting \<Rightarrow>
          AList.update ''sort''
            (JObj k (fold (transform_sort_key T) (map fst sorting) sorting)) criteria
      | _ \<Rightarrow> criteria)"

text \<open>Lines 89 to 150 in their order.\<close>

definition transform_criteria :: "tmap \<Rightarrow> props \<Rightarrow> props option" where
  "transform_criteria T criteria =
     Option.bind (transform_array T ''select'' criteria) (\<lambda>criteria1.
     Option.bind (transform_array T ''sum'' (transform_sort T criteria1)) (\<lambda>criteria3.
     Option.bind (transform_array T ''average'' criteria3) (\<lambda>criteria4.
     Option.bind (transform_array T ''min'' criteria4) (\<lambda>criteria5.
     Option.bind (transform_array T ''max'' criteria5) (\<lambda>criteria6.
     transform_array T ''groupBy'' criteria6)))))"

text \<open>Lines 160 to 165: schema mode renames the keys of the first level.\<close>

definition schema_key :: "tmap \<Rightarrow> string \<Rightarrow> props \<Rightarrow> props" where
  "schema_key T property schema =
     (case map_of T property of
        Some c \<Rightarrow> AList.delete property (AList.update c (js_get schema property) schema)
      | None \<Rightarrow> schema)"

definition of_option :: "jsval option \<Rightarrow> js_error + jsval" where
  "of_option r = (case r of None \<Rightarrow> Inl Diverged | Some v \<Rightarrow> Inr v)"

definition serialize :: "transformation \<Rightarrow> jsval \<Rightarrow> jsval \<Rightarrow> js_error + jsval" where
  "serialize self attrs behavior =
     (let T = transformations self; vals = attrs in
      if isUndefined behavior \<and> (vals = JUndefined \<or> vals = JNull) then Inl TypeError
      else if isUndefined behavior \<and> \<not> isUndefined (js_prop vals ''where'') then
        (case vals of
           JObj k criteria0 \<Rightarrow>
             (case transform_criteria T criteria0 of
                None \<Rightarrow> Inl Unmodelled
              | Some criteria7 \<Rightarrow>
                  let w = js_get criteria7 ''where''
                  in (case recursiveSerialize (Suc (depth w)) self w JUndefined of
                        None \<Rightarrow> Inl Diverged
                      | Some w' \<Rightarrow> Inr (JObj k (AList.update ''where'' w' criteria7))))
         | _ \<Rightarrow> Inr vals)
      else if behavior = JStr ''schema'' then
        (case vals of
           JObj k schema \<Rightarrow> Inr (JObj k (fold (schema_key T) (map fst schema) schema))
         | _ \<Rightarrow> Inr vals)
      else
        (case vals of
           JStr s \<Rightarrow>
             (case map_of T s of
                Some c \<Rightarrow> if s \<noteq> [] then Inr (JStr c) else Inr vals
              | None \<Rightarrow> Inr vals)
         | _ \<Rightarrow> of_option (recursiveSerialize (Suc (depth vals)) self vals JUndefined)))"

subsection \<open>\<^verbatim>\<open>Transformation.prototype.unserialize\<close>\<close>

text \<open>
  The argument is the row an adapter returns, an object.  The loop reads the row as it was
  given (\<^verbatim>\<open>attributes\<close>) and writes to its copy (\<^verbatim>\<open>values\<close>).
\<close>

definition unserialize_key :: "props \<Rightarrow> string \<times> string \<Rightarrow> props \<Rightarrow> props" where
  "unserialize_key attrs kt vals =
     (case kt of (key, transformed) \<Rightarrow>
      if \<not> hasOwnProperty attrs transformed then vals
      else
        let vals1 = AList.update key (js_get attrs transformed) vals
        in if transformed \<noteq> key then AList.delete transformed vals1 else vals1)"

definition unserialize :: "transformation \<Rightarrow> props \<Rightarrow> props" where
  "unserialize self attrs = fold (unserialize_key attrs) (transformations self) attrs"

section \<open>Record creation (\<^verbatim>\<open>lib/offshore/query/dql/create.js\<close>)\<close>

subsection \<open>The store\<close>

text \<open>
  \<^verbatim>\<open>create\<close> writes into the object its caller passes, and a default value can be an object
  that the declaration and the record share.  Where that matters, objects live in a store:
  a value is a primitive, a function or the address of a cell, and a cell is an object (its
  own properties in order), an array, a \<^verbatim>\<open>Buffer\<close> or a date.  An address is an index into
  the store; a new cell is appended.
\<close>

type_synonym addr = nat

datatype hval =
    HUndefined
  | HNull
  | HBool bool
  | HNum int
  | HStr string
  | HFun nat
  | HRef addr

datatype cell =
    CObject "(string \<times> hval) list"
  | CArray "hval list"
  | CBuffer "nat list"
  | CDate string

type_synonym heap = "cell list"

definition cell_at :: "heap \<Rightarrow> addr \<Rightarrow> cell option" where
  "cell_at h a = (if a < length h then Some (h ! a) else None)"

definition object_at :: "heap \<Rightarrow> addr \<Rightarrow> (string \<times> hval) list option" where
  "object_at h a = (case cell_at h a of Some (CObject es) \<Rightarrow> Some es | _ \<Rightarrow> None)"

definition array_at :: "heap \<Rightarrow> hval \<Rightarrow> hval list option" where
  "array_at h v =
     (case v of
        HRef a \<Rightarrow> (case cell_at h a of Some (CArray xs) \<Rightarrow> Some xs | _ \<Rightarrow> None)
      | _ \<Rightarrow> None)"

definition plain_at :: "heap \<Rightarrow> hval \<Rightarrow> bool" where
  "plain_at h v = (case v of HRef a \<Rightarrow> object_at h a \<noteq> None | _ \<Rightarrow> False)"

fun htruthy :: "hval \<Rightarrow> bool" where
  "htruthy HUndefined = False"
| "htruthy HNull = False"
| "htruthy (HBool b) = b"
| "htruthy (HNum n) = (n \<noteq> 0)"
| "htruthy (HStr s) = (s \<noteq> [])"
| "htruthy (HFun f) = True"
| "htruthy (HRef a) = True"

fun is_function :: "hval \<Rightarrow> bool" where
  "is_function (HFun f) = True"
| "is_function _ = False"

definition hget :: "(string \<times> hval) list \<Rightarrow> string \<Rightarrow> hval" where
  "hget obj k = (case map_of obj k of Some v \<Rightarrow> v | None \<Rightarrow> HUndefined)"

text \<open>\<^verbatim>\<open>obj[key] = v\<close> for the object at address \<open>a\<close>.\<close>

definition write_prop :: "heap \<Rightarrow> addr \<Rightarrow> string \<Rightarrow> hval \<Rightarrow> heap" where
  "write_prop h a key v =
     (case object_at h a of
        Some es \<Rightarrow> h[a := CObject (AList.update key v es)]
      | None \<Rightarrow> h)"

text \<open>
  \<^verbatim>\<open>_.cloneWith(value, dealWithBuffers)\<close> (lines 78 to 82).  lodash is a dependency, not part
  of the repository; by its documentation \<^verbatim>\<open>_.cloneWith\<close> is \<^verbatim>\<open>_.clone\<close>, a shallow clone,
  with a customizer that is asked first and whose result is taken unless it is
  \<^verbatim>\<open>undefined\<close>.  The customizer of the source answers for a \<^verbatim>\<open>Buffer\<close> with the buffer
  itself.  A shallow clone of an object, an array or a date is a new cell with the same
  content; a primitive is its own clone.
\<close>

definition dealWithBuffers :: "heap \<Rightarrow> hval \<Rightarrow> hval option" where
  "dealWithBuffers h v =
     (case v of
        HRef a \<Rightarrow> (case cell_at h a of Some (CBuffer b) \<Rightarrow> Some v | _ \<Rightarrow> None)
      | _ \<Rightarrow> None)"

definition cloneWith :: "heap \<Rightarrow> hval \<Rightarrow> heap \<times> hval" where
  "cloneWith h v =
     (case dealWithBuffers h v of
        Some r \<Rightarrow> (h, r)
      | None \<Rightarrow>
          (case v of
             HRef a \<Rightarrow> (case cell_at h a of
                          Some c \<Rightarrow> (h @ [c], HRef (length h))
                        | None \<Rightarrow> (h, v))
           | _ \<Rightarrow> (h, v)))"

subsection \<open>\<^verbatim>\<open>processValues\<close>: the defaults\<close>

text \<open>
  Of a declaration in \<^verbatim>\<open>this.attributes\<close> the loop reads \<^verbatim>\<open>defaultsTo\<close> only: whether it is an
  own property, and whether it is a function.  A default that is a function is a \<open>Factory\<close>:
  it is called with the candidate input as \<^verbatim>\<open>this\<close>, can read and change the store, and is
  taken to return.  A default that is not a function is a \<open>Literal\<close> (so a \<open>Literal\<close> never
  holds a function).  The declarations are listed in the order in which \<^verbatim>\<open>for ... in\<close> visits
  them.
\<close>

datatype default_value = Literal hval | Factory "heap \<Rightarrow> addr \<Rightarrow> heap \<times> hval"

type_synonym declarations = "(string \<times> default_value option) list"

text \<open>Line 73, first conjunct: the attribute is absent from the input or \<^verbatim>\<open>undefined\<close> in it.\<close>

definition default_missing :: "(string \<times> hval) list \<Rightarrow> string \<Rightarrow> bool" where
  "default_missing vals key = (\<not> hasOwnProperty vals key \<or> hget vals key = HUndefined)"

text \<open>The body of the loop (lines 73 to 84), for the input at address \<open>a\<close>.\<close>

definition set_default :: "addr \<Rightarrow> string \<times> default_value option \<Rightarrow> heap \<Rightarrow> heap" where
  "set_default a kd h =
     (case kd of (key, defaultsTo) \<Rightarrow>
      (case object_at h a of
         None \<Rightarrow> h
       | Some vals \<Rightarrow>
           if default_missing vals key then
             (case defaultsTo of
                None \<Rightarrow> h
              | Some (Factory f) \<Rightarrow> (case f h a of (h', v') \<Rightarrow> write_prop h' a key v')
              | Some (Literal v) \<Rightarrow>
                  (case cloneWith h v of (h', v') \<Rightarrow> write_prop h' a key v'))
           else h))"

definition set_defaults :: "declarations \<Rightarrow> addr \<Rightarrow> heap \<Rightarrow> heap" where
  "set_defaults decls a h = fold (set_default a) decls h"

subsection \<open>The collection and its collaborators\<close>

text \<open>
  Of the collection (\<^verbatim>\<open>this\<close>) the source file uses the fields below.  The association
  parser, the type casts, the schema, the sibling collections, the lifecycle callbacks, the
  adapter and the nested operations are not among the source files; they are parameters, and
  so is \<^verbatim>\<open>utils.object.hasOwnProperty\<close> where it is asked about a declaration of the schema.
  \<^item> \<open>valuesParser\<close>, \<open>reduceAssociations\<close> and \<open>cast_run\<close> read the input in the store as the
    defaults loop has left it; what they hand back is a tree (\<^typ>\<open>jsval\<close>), and what they do
    to the store is not modelled.
  \<^item> \<open>schema\<close> gives, for a name, what \<^verbatim>\<open>hasOwnProperty\<close> answers for \<^verbatim>\<open>collection\<close> and for
    \<^verbatim>\<open>model\<close> of \<^verbatim>\<open>self._schema.schema[name]\<close>, and the value where the answer is yes.
  \<^item> \<open>is_collection\<close> tells whether \<^verbatim>\<open>self.offshore.collections[name]\<close> is a collection (line
    123 throws where it is not), and \<open>primaryKey\<close> gives its \<^verbatim>\<open>primaryKey\<close>.
  \<^item> \<open>exec\<close> gives the answer to the query sent for a key: the error and the record, or no
    record (\<^verbatim>\<open>undefined\<close> or \<^verbatim>\<open>null\<close>).  A record is read as a plain object.
  \<^item> A callback that receives the values can change them, so \<open>validate\<close> and \<open>beforeCreate\<close>
    yield the error they report and the values they leave.
  \<^item> The adapter answers with an error and a row, a plain object.
  \<^item> A collaborator that takes a callback is assumed to call it once.
\<close>

record associations =
  models :: props
  collections :: props

record schema_attribute =
  collection :: "string option"
  model :: "string option"

datatype query =
    FindOrCreate string props props
  | Create string props

fun query_model :: "query \<Rightarrow> string" where
  "query_model (FindOrCreate m criteria payload) = m"
| "query_model (Create m payload) = m"

record offshore_collection =
  declarations :: declarations
  valuesParser :: "heap \<Rightarrow> addr \<Rightarrow> associations"
  reduceAssociations :: "heap \<Rightarrow> addr \<Rightarrow> props"
  cast_run :: "props \<Rightarrow> props"
  transformer :: transformation
  schema :: "string \<Rightarrow> schema_attribute"
  is_collection :: "string \<Rightarrow> bool"
  primaryKey :: "string \<Rightarrow> string"
  exec :: "string \<Rightarrow> query \<Rightarrow> hval option \<Rightarrow> jsval \<times> props option"
  validate :: "props \<Rightarrow> jsval \<times> props"
  beforeCreate :: "props \<Rightarrow> jsval \<times> props"
  afterCreate :: "jsval \<Rightarrow> jsval"
  autoCreatedAt :: "string option"
  autoUpdatedAt :: "string option"
  now :: string
  cleanValues :: "jsval \<Rightarrow> jsval"
  adapter_create :: "jsval \<Rightarrow> hval \<Rightarrow> jsval \<times> props"
  nested_create :: "jsval \<Rightarrow> props \<Rightarrow> jsval \<times> jsval"
  globalId :: jsval

text \<open>
  What a call of \<^verbatim>\<open>create\<close> does to the outside, in order: the queries it sends to sibling
  collections (with the context set on the query, if any) and their answers, the calls of the
  lifecycle callbacks, of the adapter and of the nested operations, and the call of the
  caller's callback; or the hand-over to \<^verbatim>\<open>createEach\<close>, or the deferred object returned; or
  an exception thrown.  \<open>Outside\<close> stands for a run that leaves the model.
\<close>

datatype event =
    Query string query "hval option"
  | Done string jsval "props option"
  | Validate props
  | BeforeCreate props
  | AdapterCreate jsval hval
  | NestedCreate jsval props
  | AfterCreate jsval
  | Callback jsval jsval
  | CreateEach "hval list" hval hval
  | Deferred hval
  | DeferredEach "hval list"
  | Threw js_error
  | Outside

subsection \<open>\<^verbatim>\<open>processValues\<close>\<close>

definition processValues :: "offshore_collection \<Rightarrow> heap \<Rightarrow> addr \<Rightarrow> heap \<times> props \<times> associations" where
  "processValues self h a =
     (let h1 = set_defaults (declarations self) a h;
          assoc = valuesParser self h1 a;
          vals = cast_run self (reduceAssociations self h1 a)
      in (h1, vals, assoc))"

subsection \<open>\<^verbatim>\<open>createBelongsTo\<close>\<close>

text \<open>
  Lines 114 to 120: the name of the sibling collection for a key of
  \<^verbatim>\<open>associations.models\<close>, read from the schema under the key's column name.  A missing name
  and an empty one are both falsy; \<open>[]\<close> stands for both.
\<close>

definition modelName_of :: "offshore_collection \<Rightarrow> string \<Rightarrow> string" where
  "modelName_of self item =
     (let attrName = (case map_of (transformations (transformer self)) item of
                        Some c \<Rightarrow> c | None \<Rightarrow> item);
          attribute = schema self attrName
      in case model attribute of
           Some m \<Rightarrow> m
         | None \<Rightarrow> (case collection attribute of Some c \<Rightarrow> c | None \<Rightarrow> []))"

text \<open>
  The iterator (lines 108 to 150) up to the call of \<^verbatim>\<open>query.exec\<close>: it calls \<^verbatim>\<open>next()\<close> at
  once, or throws (line 123, where there is no collection of that name), or sends a query
  with the context set on it, if the context is truthy.  The primary key is read from the
  payload as line 124 reads it, whether or not it is an own property.
\<close>

datatype request = Next | Throw | Exec query "hval option"

definition belongsTo_query ::
  "offshore_collection \<Rightarrow> props \<Rightarrow> hval \<Rightarrow> string \<Rightarrow> request" where
  "belongsTo_query self mods metaContainer item =
     (case js_get mods item of
        JObj Plain payload \<Rightarrow>
          let modelName = modelName_of self item
          in if modelName = [] then Next
             else
               if \<not> is_collection self modelName then Throw
               else
                 let pk = primaryKey self modelName;
                     pkValue = js_read payload pk;
                     q = (if truthy pkValue
                          then FindOrCreate modelName [(pk, pkValue)] payload
                          else Create modelName payload)
                 in Exec q (if htruthy metaContainer then Some metaContainer else None)
      | _ \<Rightarrow> Next)"

text \<open>
  \<^verbatim>\<open>async.each\<close> calls the iterator for every key in order and does not wait for a query to
  answer before it goes on; answers arrive in any order, during the loop or after it.  A run is
  described by a list of actions: the loop takes its next key, or the query of a key answers.
  An action that cannot happen (no key left, no query of that key waiting) changes nothing.
  The state holds the keys not yet taken, the queries waiting, whether the final callback has
  been called (it is called once), whether an exception has been thrown,
  \<^verbatim>\<open>valuesObject.values\<close>, and the events so far.

  An exception leaves the loop if it is thrown inside it, and leaves the key it is thrown for
  without its call of \<^verbatim>\<open>next\<close>: no further key is taken, and the final callback is not called
  without an error any more.  Queries that wait still answer.
\<close>

datatype action = Dispatch | Complete string

record run_state =
  todo :: "string list"
  inflight :: "(string \<times> query \<times> hval option) list"
  finished :: bool
  stuck :: bool
  "values" :: props
  trace :: "event list"

definition dispatch :: "offshore_collection \<Rightarrow> props \<Rightarrow> hval \<Rightarrow> run_state \<Rightarrow> run_state" where
  "dispatch self mods metaContainer st =
     (if stuck st then st
      else
        (case todo st of
           [] \<Rightarrow> st
         | item # rest \<Rightarrow>
             (case belongsTo_query self mods metaContainer item of
                Next \<Rightarrow> st\<lparr>todo := rest\<rparr>
              | Throw \<Rightarrow> st\<lparr>stuck := True, trace := trace st @ [Threw TypeError]\<rparr>
              | Exec q m \<Rightarrow>
                  st\<lparr>todo := rest, inflight := inflight st @ [(item, q, m)],
                     trace := trace st @ [Query item q m]\<rparr>)))"

text \<open>
  The callback of \<^verbatim>\<open>query.exec\<close> (lines 141 to 149) and \<^verbatim>\<open>done\<close> of \<^verbatim>\<open>async.each\<close>: an error
  goes to the final callback \<open>cb\<close>, unless that has been called; otherwise the primary key of
  the answer is stored under the key.  Line 145 throws where the answer has no record.
\<close>

definition complete ::
  "offshore_collection \<Rightarrow> (jsval \<Rightarrow> props \<Rightarrow> event list) \<Rightarrow> string \<Rightarrow> run_state \<Rightarrow> run_state" where
  "complete self cb item st =
     (case map_of (inflight st) item of
        None \<Rightarrow> st
      | Some q \<Rightarrow>
          (case exec self item (fst q) (snd q) of (err, val) \<Rightarrow>
             let st1 = st\<lparr>inflight := AList.delete item (inflight st),
                         trace := trace st @ [Done item err val]\<rparr>
             in if truthy err then
                  (if finished st1 then st1
                   else st1\<lparr>finished := True, trace := trace st1 @ cb err (values st1)\<rparr>)
                else
                  (case val of
                     None \<Rightarrow> st1\<lparr>stuck := True, trace := trace st1 @ [Threw TypeError]\<rparr>
                   | Some record \<Rightarrow>
                       st1\<lparr>values := AList.update item
                                         (js_read record (primaryKey self (query_model (fst q))))
                                         (values st1)\<rparr>)))"

text \<open>
  The final callback is called without an error as soon as no key is left and no query is
  waiting, if it has not been called before and nothing has been thrown.
\<close>

definition settle :: "(jsval \<Rightarrow> props \<Rightarrow> event list) \<Rightarrow> run_state \<Rightarrow> run_state" where
  "settle cb st =
     (if \<not> finished st \<and> \<not> stuck st \<and> todo st = [] \<and> inflight st = []
      then st\<lparr>finished := True, trace := trace st @ cb JNull (values st)\<rparr>
      else st)"

fun async_each ::
  "offshore_collection \<Rightarrow> props \<Rightarrow> (jsval \<Rightarrow> props \<Rightarrow> event list) \<Rightarrow> hval \<Rightarrow>
     action list \<Rightarrow> run_state \<Rightarrow> run_state" where
  "async_each self mods cb metaContainer [] st = st"
| "async_each self mods cb metaContainer (Dispatch # acts) st =
     async_each self mods cb metaContainer acts (settle cb (dispatch self mods metaContainer st))"
| "async_each self mods cb metaContainer (Complete item # acts) st =
     async_each self mods cb metaContainer acts (settle cb (complete self cb item st))"

definition createBelongsTo ::
  "offshore_collection \<Rightarrow> props \<times> associations \<Rightarrow> (jsval \<Rightarrow> props \<Rightarrow> event list) \<Rightarrow> hval \<Rightarrow>
     action list \<Rightarrow> event list" where
  "createBelongsTo self valuesObject cb metaContainer acts =
     trace (async_each self (models (snd valuesObject)) cb metaContainer acts
       (settle cb
          \<lparr>todo = map fst (models (snd valuesObject)), inflight = [], finished = False,
             stuck = False, values = fst valuesObject, trace = []\<rparr>))"

subsection \<open>\<^verbatim>\<open>beforeCallbacks\<close>\<close>

text \<open>
  \<^verbatim>\<open>async.series\<close> over the validation and the before-create callback: the second runs when
  the first has reported no error, and \<open>cb\<close> gets the first error, or none.  The function has
  two parameters; the third argument of its call (line 57) is dropped.
\<close>

definition beforeCallbacks ::
  "offshore_collection \<Rightarrow> props \<Rightarrow> (jsval \<Rightarrow> props \<Rightarrow> event list) \<Rightarrow> event list" where
  "beforeCallbacks self vals0 cb =
     (case validate self vals0 of (err1, vals1) \<Rightarrow>
        Validate vals0 #
        (if truthy err1 then cb err1 vals1
         else (case beforeCreate self vals1 of (err2, vals2) \<Rightarrow>
                 BeforeCreate vals1 # cb err2 vals2)))"

subsection \<open>\<^verbatim>\<open>createValues\<close>\<close>

text \<open>
  Lines 192 to 204: the timestamps, where the collection has them and the value is falsy.
  \<open>None\<close> and the empty name stand for a falsy \<^verbatim>\<open>self.autoCreatedAt\<close>; \<^verbatim>\<open>new Date()\<close> is the
  date of \<open>now\<close>.
\<close>

definition stamp :: "string option \<Rightarrow> string \<Rightarrow> props \<Rightarrow> props" where
  "stamp attr date vals0 =
     (case attr of
        None \<Rightarrow> vals0
      | Some k \<Rightarrow> if attr = Some [] then vals0
                  else if \<not> truthy (js_read vals0 k) then AList.update k (JDate date) vals0
                  else vals0)"

text \<open>
  Line 215: an error that is an object is tagged with the collection.  (A date that is an
  error has no properties here, and keeps none.)
\<close>

definition tag_error :: "jsval \<Rightarrow> jsval \<Rightarrow> jsval" where
  "tag_error gid err =
     (case err of JObj k es \<Rightarrow> JObj k (AList.update ''model'' gid es) | _ \<Rightarrow> err)"

text \<open>Lines 234 to 244.\<close>

definition after_create :: "offshore_collection \<Rightarrow> jsval \<Rightarrow> event list" where
  "after_create self v =
     (let err = afterCreate self v
      in AfterCreate v # (if truthy err then [Callback err JUndefined] else [Callback JNull v]))"

text \<open>
  Lines 206 to 246.  \<^verbatim>\<open>serialize\<close> is called on an object and without a behavior, so it throws
  nothing; where it leaves the model, so does \<^verbatim>\<open>createValues\<close>.
\<close>

definition createValues :: "offshore_collection \<Rightarrow> props \<times> associations \<Rightarrow> hval \<Rightarrow> event list" where
  "createValues self valuesObject metaContainer =
     (let vals1 = stamp (autoCreatedAt self) (now self) (fst valuesObject);
          vals2 = stamp (autoUpdatedAt self) (now self) vals1
      in case serialize (transformer self) (JObj Plain vals2) JUndefined of
           Inl e \<Rightarrow> [if e = Unmodelled then Outside else Threw e]
         | Inr vals3 \<Rightarrow>
             let vals4 = cleanValues self vals3 in
             (case adapter_create self vals4 metaContainer of (err, row) \<Rightarrow>
                AdapterCreate vals4 metaContainer #
                (if truthy err then [Callback (tag_error (globalId self) err) JUndefined]
                 else
                   let v = JObj Plain (unserialize (transformer self) row) in
                   if collections (snd valuesObject) = [] then after_create self v
                   else (case nested_create self v (collections (snd valuesObject)) of
                           (nerr, obj) \<Rightarrow>
                             NestedCreate v (collections (snd valuesObject)) #
                             (if truthy nerr then [Callback nerr JUndefined]
                              else after_create self obj)))))"

subsection \<open>\<^verbatim>\<open>create\<close>\<close>

text \<open>
  Lines 51 to 58: the callback given to \<^verbatim>\<open>createBelongsTo\<close>, and inside it the callback given
  to \<^verbatim>\<open>beforeCallbacks\<close>.
\<close>

definition after_before :: "offshore_collection \<Rightarrow> associations \<Rightarrow> hval \<Rightarrow> jsval \<Rightarrow> props \<Rightarrow> event list" where
  "after_before self assoc metaContainer err vals0 =
     (if truthy err then [Callback err JUndefined]
      else createValues self (vals0, assoc) metaContainer)"

definition after_belongsTo :: "offshore_collection \<Rightarrow> associations \<Rightarrow> hval \<Rightarrow> jsval \<Rightarrow> props \<Rightarrow> event list" where
  "after_belongsTo self assoc metaContainer err vals0 =
     (if truthy err then [Callback err JUndefined]
      else beforeCallbacks self vals0 (after_before self assoc metaContainer))"

text \<open>
  \<^verbatim>\<open>create(values, cb, metaContainer)\<close> with its three arguments, the store and the order in
  which the queries to sibling collections are sent and answer.  It yields the store and the
  events.  \<^verbatim>\<open>createBelongsTo\<close> is called with two arguments (line 51), so its third parameter
  is \<^verbatim>\<open>undefined\<close>.  With a callback, values that are neither an array nor a plain object are
  outside the model.
\<close>

definition create ::
  "offshore_collection \<Rightarrow> heap \<Rightarrow> hval \<Rightarrow> hval \<Rightarrow> hval \<Rightarrow> action list \<Rightarrow> heap \<times> event list" where
  "create self h arg0 arg1 arg2 acts =
     (let deferred_form = (plain_at h arg0 \<and> (plain_at h arg1 \<or> array_at h arg1 \<noteq> None));
          vals0 = (if deferred_form then arg1 else arg0);
          cb = (if deferred_form then arg2 else arg1);
          metaContainer = arg2
      in case array_at h vals0 of
           Some xs \<Rightarrow>
             let filtered = filter htruthy xs in
             if \<not> is_function cb then (h, [DeferredEach filtered])
             else (h, [CreateEach filtered cb metaContainer])
         | None \<Rightarrow>
             if \<not> is_function cb then (h, [Deferred vals0])
             else
               (case vals0 of
                  HRef a \<Rightarrow>
                    if object_at h a = None then (h, [Outside])
                    else
                      (case processValues self h a of (h1, vals1, assoc) \<Rightarrow>
                         (h1, createBelongsTo self (vals1, assoc)
                                (after_belongsTo self assoc metaContainer) HUndefined acts))
                | _ \<Rightarrow> (h, [Outside])))"

section \<open>Notions used in the statements about the transformer\<close>

text \<open>
  The value under \<^verbatim>\<open>columnName\<close> of an object-shaped declaration, the error thrown by
  \<^verbatim>\<open>initialize\<close>, and what a declaration contributes to the map.
\<close>

definition decl_column :: "jsval \<Rightarrow> jsval option" where
  "decl_column decl = (case decl of JObj k es \<Rightarrow> map_of es ''columnName'' | _ \<Rightarrow> None)"

definition config_error :: js_error where
  "config_error = ConfigError ''columnName transformation must be a string''"

definition bad_column :: "props \<Rightarrow> string \<Rightarrow> bool" where
  "bad_column attrs a =
     (case decl_column (js_get attrs a) of Some v \<Rightarrow> \<not> isString v | None \<Rightarrow> False)"

definition column_of :: "props \<Rightarrow> string \<Rightarrow> string option" where
  "column_of attrs a =
     (case decl_column (js_get attrs a) of
        Some (JStr c) \<Rightarrow> if a = c then None else Some c
      | _ \<Rightarrow> None)"

text \<open>The name under which \<^verbatim>\<open>serialize\<close> stores the value of a property.\<close>

definition column :: "transformation \<Rightarrow> string \<Rightarrow> string" where
  "column self p = (case map_of (transformations self) p of Some c \<Rightarrow> c | None \<Rightarrow> p)"

text \<open>Primitive values, and the two types whose text \<^verbatim>\<open>serialize\<close> parses into a date.\<close>

fun isPrimitive :: "jsval \<Rightarrow> bool" where
  "isPrimitive (JObj k es) = False"
| "isPrimitive (JFun f) = False"
| "isPrimitive (JDate s) = False"
| "isPrimitive _ = True"

definition is_date_type :: "jsval \<Rightarrow> bool" where
  "is_date_type ty = (ty = JStr ''date'' \<or> ty = JStr ''datetime'')"

text \<open>
  What the loop body does to a property whose value it neither traverses nor parses: the value
  moves under the column name.
\<close>

definition rename_leaf :: "tmap \<Rightarrow> string \<Rightarrow> props \<Rightarrow> props" where
  "rename_leaf T p obj =
     (case map_of T p of
        Some c \<Rightarrow> AList.update c (js_get obj p) (AList.delete p obj)
      | None \<Rightarrow> obj)"

text \<open>
  A primitive value that is not text under an attribute declared \<^verbatim>\<open>date\<close> or
  \<^verbatim>\<open>datetime\<close>.
\<close>

definition leaf_ok :: "transformation \<Rightarrow> string \<Rightarrow> jsval \<Rightarrow> bool" where
  "leaf_ok self p v =
     (isPrimitive v \<and>
      (isString v \<longrightarrow>
         (case map_of (attributes self) p of
            Some d \<Rightarrow> truthy d \<and> \<not> is_date_type (attr_type d)
          | None \<Rightarrow> False)))"

text \<open>Bounds on the depth of the values of an object and on what a recursive call returns.\<close>

definition bounded :: "nat \<Rightarrow> props \<Rightarrow> bool" where
  "bounded d obj = (\<forall>e\<in>set obj. depth (snd e) \<le> d)"

definition shrinking :: "(jsval \<Rightarrow> jsval \<Rightarrow> jsval option) \<Rightarrow> bool" where
  "shrinking rec = (\<forall>v pa v'. rec v pa = Some v' \<longrightarrow> depth v' \<le> depth v)"

definition total_below :: "nat \<Rightarrow> (jsval \<Rightarrow> jsval \<Rightarrow> jsval option) \<Rightarrow> bool" where
  "total_below d rec = (\<forall>v pa. depth v \<le> d \<longrightarrow> rec v pa \<noteq> None)"

subsection \<open>Example collections\<close>

text \<open>
  A collection with a renamed attribute, a date, a \<^verbatim>\<open>json\<close> attribute and a shorthand
  declaration.
\<close>

definition person_attributes :: props where
  "person_attributes =
     [(''fullName'', JObj Plain [(''type'', JStr ''string''), (''columnName'', JStr ''full_name'')]),
      (''born'', JObj Plain [(''type'', JStr ''date'')]),
      (''data'', JObj Plain [(''type'', JStr ''json'')]),
      (''age'', JStr ''integer'')]"

definition person :: transformation where
  "person = \<lparr>attributes = person_attributes, transformations = [(''fullName'', ''full_name'')]\<rparr>"

definition person_record :: props where
  "person_record =
     [(''fullName'', JStr ''Ada''), (''born'', JNull), (''data'', JNum 1), (''age'', JNum 36)]"

text \<open>A declaration whose column name is not text.\<close>

definition broken_attributes :: props where
  "broken_attributes =
     [(''name'', JStr ''string''), (''age'', JObj Plain [(''columnName'', JNum 7)])]"

text \<open>A collection in which the column of one attribute is the name of another.\<close>

definition clash_attributes :: props where
  "clash_attributes =
     [(''name'', JObj Plain [(''type'', JStr ''string''), (''columnName'', JStr ''title'')]),
      (''title'', JObj Plain [(''type'', JStr ''string'')])]"

definition clash :: transformation where
  "clash = \<lparr>attributes = clash_attributes, transformations = [(''name'', ''title'')]\<rparr>"

definition clash_record :: props where
  "clash_record = [(''name'', JStr ''Ada''), (''title'', JStr ''Dr'')]"

text \<open>
  Two criteria that differ in the order of the keys of \<^verbatim>\<open>where\<close> only: a condition on the
  \<^verbatim>\<open>json\<close> attribute and an \<^verbatim>\<open>or\<close> over the renamed attribute.
\<close>

definition or_child :: jsval where
  "or_child = JObj Plain [(''fullName'', JStr ''Ada'')]"

definition criteria_or_last :: jsval where
  "criteria_or_last =
     JObj Plain [(''where'', JObj Plain [(''data'', JNum 5), (''or'', JObj Array [(''0'', or_child)])])]"

definition criteria_or_first :: jsval where
  "criteria_or_first =
     JObj Plain [(''where'', JObj Plain [(''or'', JObj Array [(''0'', or_child)]), (''data'', JNum 5)])]"

text \<open>
  Text under the attribute \<^verbatim>\<open>born\<close>, declared \<^verbatim>\<open>date\<close>, in an object that is the child of an
  \<^verbatim>\<open>or\<close> node or the value of a key that is not declared, after and before the \<^verbatim>\<open>json\<close>
  attribute.
\<close>

definition date_child :: jsval where
  "date_child = JObj Plain [(''born'', JStr ''2020-01-01'')]"

definition parsed_child :: jsval where
  "parsed_child = JObj Plain [(''born'', JDate ''2020-01-01'')]"

definition criteria_date_last :: jsval where
  "criteria_date_last =
     JObj Plain [(''where'', JObj Plain [(''data'', JNum 5), (''or'', JObj Array [(''0'', date_child)])])]"

definition criteria_date_first :: jsval where
  "criteria_date_first =
     JObj Plain [(''where'', JObj Plain [(''or'', JObj Array [(''0'', date_child)]), (''data'', JNum 5)])]"

definition record_date_last :: jsval where
  "record_date_last = JObj Plain [(''data'', JNum 5), (''extra'', date_child)]"

definition record_date_first :: jsval where
  "record_date_first = JObj Plain [(''extra'', date_child), (''data'', JNum 5)]"

section \<open>Notions used in the statements about record creation\<close>

text \<open>What one step of the defaults loop writes: the store it leaves and the value.\<close>

definition default_result :: "heap \<Rightarrow> addr \<Rightarrow> default_value \<Rightarrow> heap \<times> hval" where
  "default_result h a d = (case d of Factory f \<Rightarrow> f h a | Literal v \<Rightarrow> cloneWith h v)"

text \<open>
  A default that leaves the store as it is, but for cells it adds: a literal, or a function
  that changes no cell that exists when it is called.
\<close>

definition quiet_default :: "default_value option \<Rightarrow> bool" where
  "quiet_default d =
     (case d of
        Some (Factory f) \<Rightarrow> (\<forall>h a. take (length h) (fst (f h a)) = h)
      | _ \<Rightarrow> True)"

text \<open>
  The events of the resolution of the \<^verbatim>\<open>belongsTo\<close> associations, and the events before the
  final callback of a resolution in which something is thrown.
\<close>

fun is_resolution :: "event \<Rightarrow> bool" where
  "is_resolution (Query item q m) = True"
| "is_resolution (Done item e v) = True"
| "is_resolution _ = False"

fun is_silent :: "event \<Rightarrow> bool" where
  "is_silent (Query item q m) = True"
| "is_silent (Done item e v) = True"
| "is_silent (Threw e) = True"
| "is_silent _ = False"

text \<open>
  The query the iterator sends for a key, if it sends one; a query whose answer is a record
  without an error; and the primary key in that record.
\<close>

definition asked ::
  "offshore_collection \<Rightarrow> props \<Rightarrow> hval \<Rightarrow> string \<Rightarrow> (query \<times> hval option) option" where
  "asked self mods metaContainer item =
     (case belongsTo_query self mods metaContainer item of
        Exec q m \<Rightarrow> Some (q, m)
      | _ \<Rightarrow> None)"

definition succeeds :: "offshore_collection \<Rightarrow> string \<Rightarrow> query \<times> hval option \<Rightarrow> bool" where
  "succeeds self item q =
     (case exec self item (fst q) (snd q) of (err, val) \<Rightarrow> \<not> truthy err \<and> val \<noteq> None)"

definition pk_answer :: "offshore_collection \<Rightarrow> string \<Rightarrow> query \<times> hval option \<Rightarrow> jsval" where
  "pk_answer self item q =
     (case snd (exec self item (fst q) (snd q)) of
        Some record \<Rightarrow> js_read record (primaryKey self (query_model (fst q)))
      | None \<Rightarrow> JUndefined)"

text \<open>
  The resolution is complete: the events \<open>R\<close> are queries and answers only; for every key
  that has a query, the query has been sent and has answered with a record and without an
  error, and the values \<open>v\<close> hold the primary key of that record under the key.
\<close>

definition resolved ::
  "offshore_collection \<Rightarrow> props \<Rightarrow> hval \<Rightarrow> string list \<Rightarrow> event list \<Rightarrow> props \<Rightarrow> bool" where
  "resolved self mods metaContainer ks R v =
     (list_all is_resolution R \<and>
      (\<forall>item\<in>set ks. belongsTo_query self mods metaContainer item \<noteq> Throw) \<and>
      (\<forall>item\<in>set ks. \<forall>q. asked self mods metaContainer item = Some q \<longrightarrow>
         Query item (fst q) (snd q) \<in> set R \<and>
         Done item (fst (exec self item (fst q) (snd q))) (snd (exec self item (fst q) (snd q)))
           \<in> set R \<and>
         succeeds self item q \<and> js_get v item = pk_answer self item q))"

text \<open>The invariant of a run of \<^verbatim>\<open>async.each\<close> over the keys \<open>ks\<close>.\<close>

definition run_inv ::
  "offshore_collection \<Rightarrow> props \<Rightarrow> (jsval \<Rightarrow> props \<Rightarrow> event list) \<Rightarrow> hval \<Rightarrow> string list \<Rightarrow>
     run_state \<Rightarrow> bool" where
  "run_inv self mods cb metaContainer ks st =
     (if finished st then
        (\<exists>R e v R'. trace st = R @ cb e v @ R' \<and> list_all is_silent R \<and>
           list_all is_silent R' \<and>
           (truthy e \<or>
            (e = JNull \<and> R' = [] \<and> todo st = [] \<and> inflight st = [] \<and>
             resolved self mods metaContainer ks R v)))
      else
        (list_all is_silent (trace st) \<and>
         (stuck st \<or>
          (\<exists>processed. ks = processed @ todo st \<and>
             list_all is_resolution (trace st) \<and>
             (\<forall>item\<in>set processed. belongsTo_query self mods metaContainer item \<noteq> Throw) \<and>
             (\<forall>item\<in>set processed. \<forall>q. asked self mods metaContainer item = Some q \<longrightarrow>
                Query item (fst q) (snd q) \<in> set (trace st) \<and>
                (item \<in> fst ` set (inflight st) \<or>
                 Done item (fst (exec self item (fst q) (snd q)))
                   (snd (exec self item (fst q) (snd q))) \<in> set (trace st) \<and>
                 succeeds self item q \<and> js_get (values st) item = pk_answer self item q)) \<and>
             (\<forall>item q. (item, q) \<in> set (inflight st) \<longrightarrow>
                asked self mods metaContainer item = Some q)))))"

text \<open>
  A call that creates one record from the object at \<open>a\<close> and has a callback:
  \<^verbatim>\<open>create(values, cb, context)\<close>, or \<^verbatim>\<open>create(criteria, values, cb)\<close> as a deferred object
  calls it.  In both the context is the third argument.
\<close>

definition single_record :: "heap \<Rightarrow> hval \<Rightarrow> hval \<Rightarrow> hval \<Rightarrow> addr \<Rightarrow> bool" where
  "single_record h arg0 arg1 arg2 a =
     (object_at h a \<noteq> None \<and>
      (arg0 = HRef a \<and> is_function arg1 \<or>
       plain_at h arg0 \<and> arg1 = HRef a \<and> is_function arg2))"

text \<open>
  The call of the adapter; and the one event of a call that does not create a record itself:
  the hand-over to \<^verbatim>\<open>createEach\<close>, the deferred object returned, or a run that leaves the
  model.
\<close>

fun is_write :: "event \<Rightarrow> bool" where
  "is_write (AdapterCreate v m) = True"
| "is_write _ = False"

fun is_handover :: "event \<Rightarrow> bool" where
  "is_handover (CreateEach xs cb m) = True"
| "is_handover (Deferred v) = True"
| "is_handover (DeferredEach xs) = True"
| "is_handover Outside = True"
| "is_handover _ = False"

subsection \<open>An example collection\<close>

text \<open>
  A collection of pets.  Its attribute \<^verbatim>\<open>owner\<close> is a \<^verbatim>\<open>belongsTo\<close> association with the
  collection \<^verbatim>\<open>user\<close>, whose primary key is \<^verbatim>\<open>id\<close>, and its attribute \<^verbatim>\<open>kind\<close> has a default.
  The collaborators of the example: the association parser finds the object under \<^verbatim>\<open>owner\<close>,
  the values handed on are the primitive properties of the input, a \<^verbatim>\<open>create\<close> on \<^verbatim>\<open>user\<close>
  answers with the payload and the primary key 7, a \<^verbatim>\<open>findOrCreate\<close> with the payload, the
  callbacks report no error, and the adapter returns the values it is given.
\<close>

fun is_ref :: "hval \<Rightarrow> bool" where
  "is_ref (HRef a) = True"
| "is_ref _ = False"

fun prim :: "hval \<Rightarrow> jsval" where
  "prim HUndefined = JUndefined"
| "prim HNull = JNull"
| "prim (HBool b) = JBool b"
| "prim (HNum n) = JNum n"
| "prim (HStr s) = JStr s"
| "prim (HFun f) = JFun f"
| "prim (HRef a) = JUndefined"

definition flat :: "heap \<Rightarrow> addr \<Rightarrow> props" where
  "flat h a =
     (case object_at h a of
        Some es \<Rightarrow> map (map_prod id prim) (filter (\<lambda>e. \<not> is_ref (snd e)) es)
      | None \<Rightarrow> [])"

definition owner_models :: "heap \<Rightarrow> addr \<Rightarrow> props" where
  "owner_models h a =
     (case object_at h a of
        Some es \<Rightarrow> (case hget es ''owner'' of
                     HRef b \<Rightarrow> [(''owner'', JObj Plain (flat h b))]
                   | _ \<Rightarrow> [])
      | None \<Rightarrow> [])"

definition user_exec :: "string \<Rightarrow> query \<Rightarrow> hval option \<Rightarrow> jsval \<times> props option" where
  "user_exec item q meta =
     (case q of
        FindOrCreate m criteria payload \<Rightarrow> (JNull, Some payload)
      | Create m payload \<Rightarrow> (JNull, Some (AList.update ''id'' (JNum 7) payload)))"

fun props_of :: "jsval \<Rightarrow> props" where
  "props_of (JObj k es) = es"
| "props_of _ = []"

definition pet_attributes :: props where
  "pet_attributes =
     [(''name'', JStr ''string''), (''kind'', JStr ''string''),
      (''owner'', JObj Plain [(''model'', JStr ''user'')])]"

definition pets :: offshore_collection where
  "pets =
     \<lparr>declarations = [(''name'', None), (''kind'', Some (Literal (HStr ''dog''))), (''owner'', None)],
      valuesParser = (\<lambda>h a. \<lparr>models = owner_models h a, collections = []\<rparr>),
      reduceAssociations = flat,
      cast_run = (\<lambda>v. v),
      transformer = \<lparr>attributes = pet_attributes, transformations = []\<rparr>,
      schema = (\<lambda>k. if k = ''owner'' then \<lparr>collection = None, model = Some ''user''\<rparr>
                     else \<lparr>collection = None, model = None\<rparr>),
      is_collection = (\<lambda>m. m = ''user''),
      primaryKey = (\<lambda>m. ''id''),
      exec = user_exec,
      validate = (\<lambda>v. (JNull, v)),
      beforeCreate = (\<lambda>v. (JNull, v)),
      afterCreate = (\<lambda>v. JNull),
      autoCreatedAt = None,
      autoUpdatedAt = None,
      now = ''2020-01-01'',
      cleanValues = (\<lambda>v. v),
      adapter_create = (\<lambda>v m. (JNull, props_of v)),
      nested_create = (\<lambda>v c. (JNull, v)),
      globalId = JStr ''Pet''\<rparr>"

text \<open>The same collection with a before-create callback that rejects.\<close>

definition strict_pets :: offshore_collection where
  "strict_pets = pets\<lparr>beforeCreate := (\<lambda>v. (JStr ''rejected'', v))\<rparr>"

text \<open>The input \<^verbatim>\<open>{name: 'a', owner: {email: 'e@x.com'}}\<close>, and what is handed on of it.\<close>

definition pet_heap :: heap where
  "pet_heap =
     [CObject [(''name'', HStr ''a''), (''owner'', HRef 1)],
      CObject [(''email'', HStr ''e@x.com'')]]"

definition pet_heap_after :: heap where
  "pet_heap_after =
     [CObject [(''name'', HStr ''a''), (''owner'', HRef 1), (''kind'', HStr ''dog'')],
      CObject [(''email'', HStr ''e@x.com'')]]"



definition owner_payload :: props where
  "owner_payload = [(''email'', JStr ''e@x.com'')]"

definition owner_answer :: props where
  "owner_answer = [(''email'', JStr ''e@x.com''), (''id'', JNum 7)]"

definition pet_values :: props where
  "pet_values = [(''name'', JStr ''a''), (''kind'', JStr ''dog''), (''owner'', JNum 7)]"

text \<open>
  An array input with two empty entries: \<^verbatim>\<open>[{name: 'a'}, undefined, null, {name: 'b'}]\<close>.
\<close>

definition batch_heap :: heap where
  "batch_heap =
     [CArray [HRef 1, HUndefined, HNull, HRef 2],
      CObject [(''name'', HStr ''a'')],
      CObject [(''name'', HStr ''b'')]]"

text \<open>
  A default that is an array holding an object, \<^verbatim>\<open>tags: {defaultsTo: [{label: 'new'}]}\<close>, and
  the input \<^verbatim>\<open>{name: 'a'}\<close>: the array is the cell 1, the object in it the cell 2.
\<close>

definition tag_declarations :: declarations where
  "tag_declarations = [(''name'', None), (''tags'', Some (Literal (HRef 1)))]"

definition tagged :: offshore_collection where
  "tagged = pets\<lparr>declarations := tag_declarations\<rparr>"

definition tag_heap :: heap where
  "tag_heap =
     [CObject [(''name'', HStr ''a'')],
      CArray [HRef 2],
      CObject [(''label'', HStr ''new'')]]"

definition tag_heap_after :: heap where
  "tag_heap_after =
     [CObject [(''name'', HStr ''a''), (''tags'', HRef 3)],
      CArray [HRef 2],
      CObject [(''label'', HStr ''new'')],
      CArray [HRef 2]]"

text \<open>The associations found in the example inputs, and the run in which the query for
  \<^verbatim>\<open>owner\<close> is sent and answers.\<close>

definition pet_assoc :: associations where
  "pet_assoc = \<lparr>models = [(''owner'', JObj Plain owner_payload)], collections = []\<rparr>"

definition pet_run :: "action list" where
  "pet_run = [Dispatch, Complete ''owner'']"

section \<open>Properties of the transformer\<close>

subsection \<open>Building the map\<close>

lemma initialize_key_other: "key \<noteq> ''columnName'' \<Longrightarrow> initialize_key attr decl key T = Inr T"
  by (simp add: initialize_key_def)

lemma initialize_key_twice:
  "initialize_key attr decl ''columnName'' T = Inr T' \<Longrightarrow>
   initialize_key attr decl ''columnName'' T' = Inr T'"
  by (auto simp: initialize_key_def split: jsval.splits if_splits)

lemma forEachE_initialize_key_absent:
  "''columnName'' \<notin> set ks \<Longrightarrow> forEachE (initialize_key attr decl) ks T = Inr T"
  by (induction ks arbitrary: T) (auto simp: initialize_key_other)

lemma forEachE_initialize_key_again:
  "initialize_key attr decl ''columnName'' T = Inr T \<Longrightarrow>
   forEachE (initialize_key attr decl) ks T = Inr T"
proof (induction ks)
  case Nil
  then show ?case by simp
next
  case (Cons k ks)
  then show ?case by (cases "k = ''columnName''") (simp_all add: initialize_key_other)
qed

lemma forEachE_initialize_key:
  "''columnName'' \<in> set ks \<Longrightarrow>
   forEachE (initialize_key attr decl) ks T = initialize_key attr decl ''columnName'' T"
proof (induction ks arbitrary: T)
  case Nil
  then show ?case by simp
next
  case (Cons k ks)
  show ?case
  proof (cases "k = ''columnName''")
    case True
    show ?thesis
    proof (cases "initialize_key attr decl ''columnName'' T")
      case (Inl e)
      with True show ?thesis by simp
    next
      case (Inr T')
      with True show ?thesis
        by (simp add: forEachE_initialize_key_again initialize_key_twice)
    qed
  next
    case False
    with Cons show ?thesis by (simp add: initialize_key_other)
  qed
qed

lemma initialize_attr_eq:
  "initialize_attr attrs a T =
     (case decl_column (js_get attrs a) of
        None \<Rightarrow> Inr T
      | Some (JStr c) \<Rightarrow> Inr (if a = c then T else AList.update a c T)
      | Some _ \<Rightarrow> Inl config_error)"
proof (cases "js_get attrs a")
  case (JObj k es)
  show ?thesis
  proof (cases "''columnName'' \<in> set (map fst es)")
    case True
    then obtain v where v: "map_of es ''columnName'' = Some v"
      by (metis map_of_eq_None_iff not_Some_eq set_map)
    with True JObj show ?thesis
      by (simp add: initialize_attr_def decl_column_def forEachE_initialize_key
          initialize_key_def js_get_def config_error_def split: jsval.splits)
  next
    case False
    then have "map_of es ''columnName'' = None"
      by (simp add: map_of_eq_None_iff)
    with False JObj show ?thesis
      by (simp add: initialize_attr_def decl_column_def forEachE_initialize_key_absent)
  qed
qed (simp_all add: initialize_attr_def decl_column_def)

lemma initialize_attr_bad: "bad_column attrs a \<Longrightarrow> initialize_attr attrs a T = Inl config_error"
  by (auto simp: initialize_attr_eq bad_column_def split: option.splits jsval.splits)

lemma initialize_attr_good:
  "\<not> bad_column attrs a \<Longrightarrow>
   initialize_attr attrs a T =
     Inr (case column_of attrs a of None \<Rightarrow> T | Some c \<Rightarrow> AList.update a c T)"
  by (auto simp: initialize_attr_eq bad_column_def column_of_def split: option.splits jsval.splits)

lemma initialize_loop_bad:
  "\<exists>a\<in>set ks. bad_column attrs a \<Longrightarrow>
   forEachE (initialize_attr attrs) ks T = Inl config_error"
proof (induction ks arbitrary: T)
  case Nil
  then show ?case by simp
next
  case (Cons k ks)
  show ?case
  proof (cases "bad_column attrs k")
    case True
    then show ?thesis by (simp add: initialize_attr_bad)
  next
    case False
    with Cons.prems have "\<exists>a\<in>set ks. bad_column attrs a" by auto
    with False Cons.IH show ?thesis by (simp add: initialize_attr_good)
  qed
qed

lemma initialize_loop_good:
  "\<forall>a\<in>set ks. \<not> bad_column attrs a \<Longrightarrow>
   \<exists>T'. forEachE (initialize_attr attrs) ks T = Inr T' \<and>
     (\<forall>a. map_of T' a =
        (if a \<in> set ks \<and> column_of attrs a \<noteq> None then column_of attrs a else map_of T a))"
proof (induction ks arbitrary: T)
  case Nil
  then show ?case by simp
next
  case (Cons k ks)
  let ?T1 = "case column_of attrs k of None \<Rightarrow> T | Some c \<Rightarrow> AList.update k c T"
  from Cons.prems have good: "\<not> bad_column attrs k" and rest: "\<forall>a\<in>set ks. \<not> bad_column attrs a"
    by auto
  from Cons.IH [OF rest, of ?T1] obtain T' where
    run: "forEachE (initialize_attr attrs) ks ?T1 = Inr T'" and
    look: "\<And>a. map_of T' a =
        (if a \<in> set ks \<and> column_of attrs a \<noteq> None then column_of attrs a else map_of ?T1 a)"
    by blast
  have "forEachE (initialize_attr attrs) (k # ks) T = Inr T'"
    using good run by (simp add: initialize_attr_good)
  moreover have "map_of T' a =
        (if a \<in> set (k # ks) \<and> column_of attrs a \<noteq> None then column_of attrs a else map_of T a)"
    for a
    by (cases "column_of attrs k") (auto simp: look update_conv')
  ultimately show ?case by blast
qed

lemma serialize_no_ConfigError: "serialize self v b \<noteq> Inl (ConfigError m)"
  by (auto simp: serialize_def Let_def of_option_def split: jsval.splits option.splits)

lemma js_get_attr: "a \<in> set (map fst attrs) \<Longrightarrow> \<exists>d. map_of attrs a = Some d \<and> js_get attrs a = d"
  by (cases "map_of attrs a") (auto simp: js_get_def map_of_eq_None_iff)

lemma bad_column_iff:
  "(\<exists>a\<in>set (map fst attrs). bad_column attrs a) \<longleftrightarrow>
   (\<exists>a k es v. map_of attrs a = Some (JObj k es) \<and> map_of es ''columnName'' = Some v \<and> \<not> isString v)"
  (is "?L \<longleftrightarrow> ?R")
proof
  assume ?L
  then obtain a where a: "a \<in> set (map fst attrs)" and bad: "bad_column attrs a" by blast
  from js_get_attr [OF a] obtain d where d: "map_of attrs a = Some d" "js_get attrs a = d" by blast
  with bad show ?R
    by (cases d) (auto simp: bad_column_def decl_column_def split: option.splits)
next
  assume ?R
  then obtain a k es v where h: "map_of attrs a = Some (JObj k es)"
    "map_of es ''columnName'' = Some v" "\<not> isString v" by blast
  from h(1) have "a \<in> set (map fst attrs)"
    by (metis map_of_eq_None_iff option.distinct(1) set_map)
  moreover from h have "bad_column attrs a"
    by (simp add: bad_column_def decl_column_def js_get_def)
  ultimately show ?L by blast
qed

lemma column_of_iff:
  "column_of attrs a = Some c \<longleftrightarrow>
   (\<exists>k es. map_of attrs a = Some (JObj k es) \<and> map_of es ''columnName'' = Some (JStr c) \<and> c \<noteq> a)"
  by (auto simp: column_of_def decl_column_def js_get_def split: option.splits jsval.splits)

lemma column_of_keys: "column_of attrs a = Some c \<Longrightarrow> a \<in> set (map fst attrs)"
  by (auto simp: column_of_iff dest!: map_of_SomeD intro: rev_image_eqI)

text \<open>
  Claim C7.  \<^verbatim>\<open>initialize\<close> throws exactly when some object-shaped declaration carries a
  \<^verbatim>\<open>columnName\<close> that is not text, and what it throws is the configuration error.  Otherwise
  the map has an entry for an attribute exactly when its declaration is object-shaped and
  carries a textual \<^verbatim>\<open>columnName\<close> different from the attribute's own name, and the entry is
  that column name; a declaration that is a function or a string contributes nothing.
  \<^verbatim>\<open>serialize\<close> never throws the configuration error (\<^verbatim>\<open>unserialize\<close> throws nothing).
\<close>

theorem initialize_columnName:
  "((\<exists>e. initialize attrs = Inl e) \<longleftrightarrow>
      (\<exists>a k es v. map_of attrs a = Some (JObj k es) \<and> map_of es ''columnName'' = Some v \<and>
         \<not> isString v)) \<and>
   (\<forall>e. initialize attrs = Inl e \<longrightarrow>
      e = ConfigError ''columnName transformation must be a string'') \<and>
   (\<forall>T a c. initialize attrs = Inr T \<longrightarrow>
      (map_of T a = Some c \<longleftrightarrow>
         (\<exists>k es. map_of attrs a = Some (JObj k es) \<and>
            map_of es ''columnName'' = Some (JStr c) \<and> c \<noteq> a))) \<and>
   (\<forall>self v b m. serialize self v b \<noteq> Inl (ConfigError m))"
proof -
  let ?R = "\<exists>a k es v. map_of attrs a = Some (JObj k es) \<and> map_of es ''columnName'' = Some v \<and>
         \<not> isString v"
  show ?thesis
  proof (cases ?R)
    case True
    then have "\<exists>a\<in>set (map fst attrs). bad_column attrs a"
      by (simp only: bad_column_iff)
    then have "initialize attrs = Inl config_error"
      unfolding initialize_def by (rule initialize_loop_bad)
    with True show ?thesis
      by (simp add: config_error_def serialize_no_ConfigError)
  next
    case False
    then have "\<not> (\<exists>a\<in>set (map fst attrs). bad_column attrs a)"
      by (simp only: bad_column_iff not_False_eq_True)
    then have "\<forall>a\<in>set (map fst attrs). \<not> bad_column attrs a" by blast
    from initialize_loop_good [OF this, of "[]"] obtain T' where
      run: "initialize attrs = Inr T'" and
      look: "\<And>a. map_of T' a =
          (if a \<in> set (map fst attrs) \<and> column_of attrs a \<noteq> None then column_of attrs a else None)"
      unfolding initialize_def by auto
    have "map_of T' a = column_of attrs a" for a
      using look [of a] column_of_keys [of attrs a] by (cases "column_of attrs a") auto
    then have "map_of T' a = Some c \<longleftrightarrow>
         (\<exists>k es. map_of attrs a = Some (JObj k es) \<and>
            map_of es ''columnName'' = Some (JStr c) \<and> c \<noteq> a)" for a c
      by (simp only: column_of_iff)
    with run False show ?thesis
      by (simp add: serialize_no_ConfigError)
  qed
qed

subsection \<open>The depth of recursion suffices\<close>

lemma fold_max_le: "fold max xs (a::nat) \<le> d \<longleftrightarrow> a \<le> d \<and> (\<forall>x\<in>set xs. x \<le> d)"
  by (induction xs arbitrary: a) auto

lemma depth_JObj_le: "depth (JObj k es) \<le> Suc d \<longleftrightarrow> bounded d es"
  by (auto simp: fold_max_le bounded_def)

lemma bounded_self: "depth (JObj k es) = Suc d \<Longrightarrow> bounded d es"
  using depth_JObj_le [of k es d] by simp

lemma set_update_cases: "e \<in> set (AList.update k v es) \<Longrightarrow> e = (k, v) \<or> e \<in> set es"
  by (induction es) (auto split: if_splits)

lemma bounded_update: "bounded d obj \<Longrightarrow> depth v \<le> d \<Longrightarrow> bounded d (AList.update k v obj)"
  by (auto simp: bounded_def dest!: set_update_cases)

lemma bounded_delete: "bounded d obj \<Longrightarrow> bounded d (AList.delete k obj)"
  by (auto simp: bounded_def AList.delete_eq)

lemma bounded_map_of: "bounded d obj \<Longrightarrow> map_of obj k = Some v \<Longrightarrow> depth v \<le> d"
  by (auto simp: bounded_def dest!: map_of_SomeD)

lemma bounded_js_get: "bounded d obj \<Longrightarrow> depth (js_get obj k) \<le> d"
  by (auto simp: js_get_def dest: bounded_map_of split: option.splits)

lemma in_place_bounded:
  assumes "shrinking rec" "in_place rec obj key pa = Some obj'" "bounded d obj"
  shows "bounded d obj'"
proof (cases "map_of obj key")
  case None
  with assms show ?thesis by (simp add: in_place_def)
next
  case (Some v)
  with assms(2) obtain v' where v': "rec v pa = Some v'" "obj' = AList.update key v' obj"
    by (auto simp: in_place_def split: option.splits)
  from assms(1) v'(1) have "depth v' \<le> depth v" by (auto simp: shrinking_def)
  moreover from assms(3) Some have "depth v \<le> d" by (rule bounded_map_of)
  ultimately show ?thesis using assms(3) v'(2) by (simp add: bounded_update)
qed

lemma visit_bounded:
  assumes sh: "shrinking rec" and run: "visit rec self p (obj, pa) = Some (obj', pa')"
    and b: "bounded d obj"
  shows "bounded d obj'"
proof (cases "hasOwnProperty obj p")
  case False
  with run b show ?thesis by (simp add: visit_def)
next
  case True
  let ?pa = "governing self p pa"
  let ?v = "js_get obj p"
  have dv: "depth ?v \<le> d" using b by (rule bounded_js_get)
  show ?thesis
  proof (cases "isArray ?v \<and> (p = ''or'' \<or> p = ''and'')")
    case True
    with run \<open>hasOwnProperty obj p\<close> have "in_place rec obj p ?pa = Some obj'"
      by (auto simp: visit_def Let_def)
    with sh show ?thesis using b by (rule in_place_bounded)
  next
    case False
    note notnode = this
    show ?thesis
    proof (cases "attr_type ?pa \<noteq> JStr ''json'' \<and> isPlainObject ?v")
      case True
      show ?thesis
      proof (cases "map_of (transformations self) p")
        case None
        with run \<open>hasOwnProperty obj p\<close> notnode True have "in_place rec obj p ?pa = Some obj'"
          by (auto simp: visit_def Let_def)
        with sh show ?thesis using b by (rule in_place_bounded)
      next
        case (Some c)
        with run \<open>hasOwnProperty obj p\<close> notnode True
        have "in_place rec (AList.delete p (AList.update c ?v obj)) c ?pa = Some obj'"
          by (auto simp: visit_def Let_def)
        moreover have "bounded d (AList.delete p (AList.update c ?v obj))"
          using b dv by (simp add: bounded_update bounded_delete)
        ultimately show ?thesis using sh in_place_bounded by blast
      qed
    next
      case False
      show ?thesis
      proof (cases "map_of (transformations self) p")
        case None
        with run \<open>hasOwnProperty obj p\<close> notnode False
        have "obj' = obj \<or> (\<exists>s. obj' = AList.update p (JDate s) obj)"
          by (cases "js_get obj p") (auto simp: visit_def Let_def split: if_splits)
        with b show ?thesis by (auto simp: bounded_update)
      next
        case (Some c)
        let ?obj1 = "AList.update c ?v (AList.delete p obj)"
        have b1: "bounded d ?obj1"
          using b dv by (intro bounded_update bounded_delete)
        from Some run \<open>hasOwnProperty obj p\<close> notnode False
        have "obj' = ?obj1 \<or> (\<exists>s. obj' = AList.update c (JDate s) ?obj1)"
          by (cases "js_get ?obj1 c") (auto simp: visit_def Let_def split: if_splits)
        with b1 b show ?thesis by (auto intro!: bounded_update bounded_delete)
      qed
    qed
  qed
qed

lemma forEachO_bounded:
  assumes "shrinking rec"
  shows "forEachO (visit rec self) ks (obj, pa) = Some (obj', pa') \<Longrightarrow> bounded d obj \<Longrightarrow>
         bounded d obj'"
proof (induction ks arbitrary: obj pa)
  case Nil
  then show ?case by simp
next
  case (Cons p ks)
  from Cons.prems(1) obtain obj1 pa1 where
    s: "visit rec self p (obj, pa) = Some (obj1, pa1)" and
    r: "forEachO (visit rec self) ks (obj1, pa1) = Some (obj', pa')"
    by (auto split: option.splits)
  from assms s Cons.prems(2) have "bounded d obj1" by (rule visit_bounded)
  with r show ?case by (rule Cons.IH)
qed

lemma recursiveSerialize_shrinking: "shrinking (recursiveSerialize n self)"
proof (induction n)
  case 0
  show ?case by (simp add: shrinking_def)
next
  case (Suc n)
  show ?case
    unfolding shrinking_def
  proof (intro allI impI)
    fix v pa v'
    assume run: "recursiveSerialize (Suc n) self v pa = Some v'"
    show "depth v' \<le> depth v"
    proof (cases v)
      case (JObj k es)
      with run obtain es' pa' where
        loop: "forEachO (visit (recursiveSerialize n self) self) (map fst es) (es, pa) = Some (es', pa')"
        and v': "v' = JObj k es'"
        by (auto simp del: depth.simps)
      obtain d where d: "depth (JObj k es) = Suc d" by simp
      then have "bounded d es" by (rule bounded_self)
      with Suc loop have "bounded d es'" by (rule forEachO_bounded)
      then have "depth (JObj k es') \<le> Suc d" by (simp only: depth_JObj_le)
      with d v' JObj show ?thesis by simp
    qed (use run in \<open>auto split: if_splits\<close>)
  qed
qed

lemma in_place_total:
  "total_below d rec \<Longrightarrow> bounded d obj \<Longrightarrow> in_place rec obj key pa \<noteq> None"
proof -
  assume t: "total_below d rec" and b: "bounded d obj"
  show ?thesis
  proof (cases "map_of obj key")
    case None
    then show ?thesis by (simp add: in_place_def)
  next
    case (Some v)
    with b have "depth v \<le> d" by (auto dest: bounded_map_of)
    with t obtain v' where "rec v pa = Some v'" by (auto simp: total_below_def)
    with Some show ?thesis by (simp add: in_place_def)
  qed
qed

lemma visit_total:
  assumes t: "total_below d rec" and b: "bounded d obj"
  shows "visit rec self p (obj, pa) \<noteq> None"
proof -
  have dv: "depth (js_get obj p) \<le> d" using b by (rule bounded_js_get)
  have "in_place rec obj p pa' \<noteq> None" for pa'
    using t b by (rule in_place_total)
  moreover have "in_place rec (AList.delete p (AList.update c (js_get obj p) obj)) c pa' \<noteq> None"
    for c pa'
    using t b dv by (intro in_place_total bounded_delete bounded_update)
  ultimately show ?thesis
    by (auto simp: visit_def Let_def split: option.splits prod.splits)
qed

lemma forEachO_total:
  assumes "shrinking rec" "total_below d rec"
  shows "bounded d obj \<Longrightarrow> forEachO (visit rec self) ks (obj, pa) \<noteq> None"
proof (induction ks arbitrary: obj pa)
  case Nil
  then show ?case by simp
next
  case (Cons p ks)
  from assms(2) Cons.prems obtain obj1 pa1 where
    s: "visit rec self p (obj, pa) = Some (obj1, pa1)"
    using visit_total [of d rec obj self p pa] by auto
  from assms(1) s Cons.prems have "bounded d obj1" by (rule visit_bounded)
  then have "forEachO (visit rec self) ks (obj1, pa1) \<noteq> None" by (rule Cons.IH)
  with s show ?case by simp
qed

lemma recursiveSerialize_total:
  "depth v < n \<Longrightarrow> recursiveSerialize n self v pa \<noteq> None"
proof (induction n arbitrary: v pa)
  case 0
  then show ?case by simp
next
  case (Suc n)
  show ?case
  proof (cases v)
    case (JObj k es)
    obtain d where d: "depth (JObj k es) = Suc d" by simp
    then have b: "bounded d es" by (rule bounded_self)
    from d Suc.prems JObj have "d < n" by simp
    with Suc.IH have "total_below d (recursiveSerialize n self)"
      by (simp add: total_below_def)
    with recursiveSerialize_shrinking
    have "forEachO (visit (recursiveSerialize n self) self) (map fst es) (es, pa) \<noteq> None"
      using b by (rule forEachO_total)
    with JObj show ?thesis by (auto simp del: depth.simps)
  qed simp_all
qed

lemma serialize_returns: "serialize self v b \<noteq> Inl Diverged"
proof -
  have tot: "(recursiveSerialize (Suc (depth w)) self w pa = None) = False" for w pa
    using recursiveSerialize_total [of w "Suc (depth w)" self pa] by simp
  show ?thesis
    unfolding serialize_def Let_def of_option_def
    by (simp add: tot del: recursiveSerialize.simps depth.simps
        split: jsval.split option.split)
qed

subsection \<open>One step of the traversal\<close>

lemma js_get_update: "js_get (AList.update k v obj) k' = (if k' = k then v else js_get obj k')"
  by (simp add: js_get_def update_conv')

lemma js_get_delete: "js_get (AList.delete k obj) k' = (if k' = k then JUndefined else js_get obj k')"
  by (simp add: js_get_def delete_conv')

lemma visit_absent: "\<not> hasOwnProperty obj p \<Longrightarrow> visit rec self p (obj, pa) = Some (obj, pa)"
  by (simp add: visit_def)

lemma visit_leaf:
  assumes own: "hasOwnProperty obj p"
    and prim: "isPrimitive (js_get obj p)"
    and nodate: "isString (js_get obj p) \<Longrightarrow> \<not> is_date_type (attr_type (governing self p pa))"
  shows "visit rec self p (obj, pa) =
           Some (rename_leaf (transformations self) p obj, governing self p pa)"
proof (cases "js_get obj p")
  case (JStr s)
  with nodate have "\<not> is_date_type (attr_type (governing self p pa))" by simp
  with own JStr show ?thesis
    by (cases "map_of (transformations self) p")
      (simp_all add: visit_def rename_leaf_def Let_def js_get_update is_date_type_def)
next
  case (JObj k es)
  with prim show ?thesis by simp
next
  case (JFun f)
  with prim show ?thesis by simp
next
  case (JDate s)
  with prim show ?thesis by simp
qed (use own in \<open>cases "map_of (transformations self) p";
      simp add: visit_def rename_leaf_def Let_def js_get_update\<close>)+

lemma governing_declared:
  "map_of (attributes self) p = Some d \<Longrightarrow> truthy d \<Longrightarrow> governing self p pa = d"
  by (simp add: governing_def js_or_def js_read_def)

lemma visit_leaf_ok:
  assumes "map_of obj p = Some v" "leaf_ok self p v"
  shows "visit rec self p (obj, pa) =
           Some (rename_leaf (transformations self) p obj, governing self p pa)"
proof (rule visit_leaf)
  from assms show "hasOwnProperty obj p" by (simp add: hasOwnProperty_def)
  from assms show "isPrimitive (js_get obj p)" by (simp add: js_get_def leaf_ok_def)
  assume "isString (js_get obj p)"
  with assms obtain d where "map_of (attributes self) p = Some d" "truthy d"
    "\<not> is_date_type (attr_type d)"
    by (auto simp: js_get_def leaf_ok_def split: option.splits)
  then show "\<not> is_date_type (attr_type (governing self p pa))"
    by (simp add: governing_declared)
qed

lemma map_of_rename_leaf:
  "map_of obj p = Some v \<Longrightarrow>
   map_of (rename_leaf T p obj) =
     (case map_of T p of
        Some c \<Rightarrow> ((map_of obj)(p := None))(c \<mapsto> v)
      | None \<Rightarrow> map_of obj)"
  by (auto simp: rename_leaf_def update_conv' delete_conv' js_get_def split: option.splits)

lemma visit_date:
  assumes "map_of obj p = Some (JStr s)" "is_date_type (attr_type (governing self p pa))"
  shows "\<exists>obj'. visit rec self p (obj, pa) = Some (obj', governing self p pa) \<and>
           map_of obj' (column self p) = Some (JDate s)"
  using assms
  by (cases "map_of (transformations self) p")
    (auto simp: visit_def hasOwnProperty_def Let_def js_get_def column_def is_date_type_def
      update_conv')

lemma visit_json:
  assumes "map_of obj p = Some v" "attr_type (governing self p pa) = JStr ''json''"
    "\<not> (isArray v \<and> (p = ''or'' \<or> p = ''and''))"
  shows "\<exists>obj'. visit rec self p (obj, pa) = Some (obj', governing self p pa) \<and>
           map_of obj' (column self p) = Some v"
proof (cases "map_of (transformations self) p")
  case None
  with assms show ?thesis
    by (cases v) (auto simp: visit_def hasOwnProperty_def Let_def js_get_def column_def update_conv')
next
  case (Some c)
  with assms show ?thesis
    by (cases v) (auto simp: visit_def hasOwnProperty_def Let_def js_get_def column_def update_conv')
qed

subsection \<open>The round trip\<close>

lemma serialize_loop:
  assumes "distinct ks"
    and "\<forall>a\<in>set ks. \<exists>v. map_of obj a = Some v \<and> leaf_ok self a v"
    and "\<forall>a\<in>set ks. \<forall>c. map_of (transformations self) a = Some c \<longrightarrow> map_of obj c = None"
    and "\<forall>a\<in>set ks. \<forall>b\<in>set ks. \<forall>c. map_of (transformations self) a = Some c \<longrightarrow>
           map_of (transformations self) b = Some c \<longrightarrow> a = b"
  shows "\<exists>obj' pa'. forEachO (visit rec self) ks (obj, pa) = Some (obj', pa') \<and>
     (\<forall>a\<in>set ks. \<forall>c. map_of (transformations self) a = Some c \<longrightarrow>
        map_of obj' c = map_of obj a \<and> map_of obj' a = None) \<and>
     (\<forall>a\<in>set ks. map_of (transformations self) a = None \<longrightarrow> map_of obj' a = map_of obj a) \<and>
     (\<forall>k. k \<notin> set ks \<longrightarrow> (\<forall>a\<in>set ks. map_of (transformations self) a \<noteq> Some k) \<longrightarrow>
        map_of obj' k = map_of obj k)"
  using assms
proof (induction ks arbitrary: obj pa)
  case Nil
  then show ?case by simp
next
  case (Cons p ks)
  let ?T = "transformations self"
  let ?obj1 = "rename_leaf ?T p obj"
  from Cons.prems(2) obtain v where v: "map_of obj p = Some v" "leaf_ok self p v" by auto
  have step: "visit rec self p (obj, pa) = Some (?obj1, governing self p pa)"
    using v by (rule visit_leaf_ok)
  have m1: "map_of ?obj1 =
     (case map_of ?T p of Some c \<Rightarrow> ((map_of obj)(p := None))(c \<mapsto> v) | None \<Rightarrow> map_of obj)"
    using v(1) by (rule map_of_rename_leaf)
  have pks: "p \<notin> set ks" and dks: "distinct ks" using Cons.prems(1) by auto
  have colp: "map_of ?T p = Some c \<Longrightarrow> map_of obj c = None \<and> c \<noteq> p \<and> c \<notin> set ks" for c
    using Cons.prems(2,3) v(1) by force
  have inj: "a \<in> set ks \<Longrightarrow> map_of ?T a = Some c \<Longrightarrow> map_of ?T p \<noteq> Some c" for a c
    using Cons.prems(4) pks by auto
  have same: "a \<in> set ks \<Longrightarrow> map_of ?obj1 a = map_of obj a" for a
    using pks colp by (auto simp: m1 split: option.splits)
  have pre2: "\<forall>a\<in>set ks. \<exists>v. map_of ?obj1 a = Some v \<and> leaf_ok self a v"
    using Cons.prems(2) same by simp
  have pre3: "\<forall>a\<in>set ks. \<forall>c. map_of ?T a = Some c \<longrightarrow> map_of ?obj1 c = None"
  proof (intro ballI allI impI)
    fix a c assume a: "a \<in> set ks" "map_of ?T a = Some c"
    then have "map_of obj c = None" using Cons.prems(3) by auto
    moreover have "map_of ?T p \<noteq> Some c" using a by (rule inj)
    ultimately show "map_of ?obj1 c = None"
      by (auto simp: m1 split: option.splits)
  qed
  have pre4: "\<forall>a\<in>set ks. \<forall>b\<in>set ks. \<forall>c. map_of ?T a = Some c \<longrightarrow> map_of ?T b = Some c \<longrightarrow> a = b"
    using Cons.prems(4) by auto
  from Cons.IH [OF dks pre2 pre3 pre4, of "governing self p pa"]
  obtain obj' pa' where
    run: "forEachO (visit rec self) ks (?obj1, governing self p pa) = Some (obj', pa')" and
    r1: "\<And>a c. a \<in> set ks \<Longrightarrow> map_of ?T a = Some c \<Longrightarrow>
           map_of obj' c = map_of ?obj1 a \<and> map_of obj' a = None" and
    r2: "\<And>a. a \<in> set ks \<Longrightarrow> map_of ?T a = None \<Longrightarrow> map_of obj' a = map_of ?obj1 a" and
    r3: "\<And>k. k \<notin> set ks \<Longrightarrow> (\<forall>a\<in>set ks. map_of ?T a \<noteq> Some k) \<Longrightarrow>
           map_of obj' k = map_of ?obj1 k"
    by blast
  have notcol: "a \<in> set ks \<Longrightarrow> map_of ?T a \<noteq> Some p" for a
    using Cons.prems(3) v(1) by force
  have c1: "map_of obj' c = map_of obj a \<and> map_of obj' a = None"
    if "a \<in> set (p # ks)" "map_of ?T a = Some c" for a c
  proof (cases "a = p")
    case True
    with that colp [of c] have cc: "c \<notin> set ks" "c \<noteq> p" by auto
    have "\<forall>b\<in>set ks. map_of ?T b \<noteq> Some c" using inj that True by auto
    with cc have "map_of obj' c = map_of ?obj1 c" by (simp add: r3)
    moreover have "map_of ?obj1 c = Some v" using that True by (simp add: m1)
    moreover have "map_of obj' p = map_of ?obj1 p" using pks notcol by (simp add: r3)
    moreover have "map_of ?obj1 p = None" using that True cc by (simp add: m1)
    ultimately show ?thesis using True v(1) by simp
  next
    case False
    with that have "a \<in> set ks" by simp
    with that r1 [of a c] same [of a] show ?thesis by simp
  qed
  have c2: "map_of obj' a = map_of obj a"
    if "a \<in> set (p # ks)" "map_of ?T a = None" for a
  proof (cases "a = p")
    case True
    have "map_of obj' p = map_of ?obj1 p" using pks notcol by (simp add: r3)
    with that True show ?thesis by (simp add: m1)
  next
    case False
    with that have "a \<in> set ks" by simp
    with that r2 [of a] same [of a] show ?thesis by simp
  qed
  have c3: "map_of obj' k = map_of obj k"
    if "k \<notin> set (p # ks)" "\<forall>a\<in>set (p # ks). map_of ?T a \<noteq> Some k" for k
  proof -
    from that have "map_of obj' k = map_of ?obj1 k" by (simp add: r3)
    moreover from that have "map_of ?obj1 k = map_of obj k"
      by (auto simp: m1 split: option.splits)
    ultimately show ?thesis by simp
  qed
  have "forEachO (visit rec self) (p # ks) (obj, pa) = Some (obj', pa')"
    using step run by simp
  with c1 c2 c3 show ?case by blast
qed

lemma map_of_unserialize_key:
  "map_of (unserialize_key row (key, tr) vals) =
     (if hasOwnProperty row tr
      then (if tr \<noteq> key then ((map_of vals)(key := map_of row tr))(tr := None)
            else (map_of vals)(key := map_of row tr))
      else map_of vals)"
  by (auto simp: unserialize_key_def hasOwnProperty_def js_get_def update_conv' delete_conv' Let_def)

lemma unserialize_fold:
  assumes "distinct (map fst E)"
    and "\<forall>e\<in>set E. \<forall>e'\<in>set E. hasOwnProperty row (snd e) \<longrightarrow> hasOwnProperty row (snd e') \<longrightarrow>
           snd e \<noteq> fst e'"
  shows "map_of (fold (unserialize_key row) E vals) k =
     (if (\<exists>tr. map_of E k = Some tr \<and> hasOwnProperty row tr) then map_of row (the (map_of E k))
      else if k \<in> snd ` set E \<and> hasOwnProperty row k then None
      else map_of vals k)"
  using assms
proof (induction E arbitrary: vals)
  case Nil
  then show ?case by simp
next
  case (Cons e E)
  obtain key tr where e: "e = (key, tr)" by (cases e)
  let ?vals1 = "unserialize_key row (key, tr) vals"
  have d: "distinct (map fst E)" and knew: "key \<notin> fst ` set E" using Cons.prems(1) e by auto
  have pre: "\<forall>e\<in>set E. \<forall>e'\<in>set E. hasOwnProperty row (snd e) \<longrightarrow> hasOwnProperty row (snd e') \<longrightarrow>
           snd e \<noteq> fst e'"
    using Cons.prems(2) by auto
  have IH: "map_of (fold (unserialize_key row) E ?vals1) k =
     (if (\<exists>tr. map_of E k = Some tr \<and> hasOwnProperty row tr) then map_of row (the (map_of E k))
      else if k \<in> snd ` set E \<and> hasOwnProperty row k then None
      else map_of ?vals1 k)"
    using Cons.IH [OF d pre] .
  have nokey: "map_of E key = None" using knew by (simp add: map_of_eq_None_iff)
  show ?case
  proof (cases "hasOwnProperty row tr")
    case False
    then have "map_of ?vals1 = map_of vals" by (simp add: map_of_unserialize_key)
    with False IH e nokey show ?thesis by auto
  next
    case True
    have trkey: "tr \<noteq> key" using Cons.prems(2) True e by auto
    have fired: "hasOwnProperty row (snd e') \<Longrightarrow> e' \<in> set E \<Longrightarrow> snd e' \<noteq> key \<and> tr \<noteq> fst e'" for e'
      using Cons.prems(2) True e by auto
    have v1: "map_of ?vals1 = ((map_of vals)(key := map_of row tr))(tr := None)"
      using True trkey by (simp add: map_of_unserialize_key)
    show ?thesis
    proof (cases "k = key")
      case True
      have "\<not> (k \<in> snd ` set E \<and> hasOwnProperty row k)"
        using fired True by auto
      with True IH e nokey v1 trkey \<open>hasOwnProperty row tr\<close> show ?thesis by auto
    next
      case False
      note kk = this
      show ?thesis
      proof (cases "k = tr")
        case True
        have "\<not> (\<exists>tr'. map_of E k = Some tr' \<and> hasOwnProperty row tr')"
        proof
          assume "\<exists>tr'. map_of E k = Some tr' \<and> hasOwnProperty row tr'"
          then obtain tr' where "map_of E k = Some tr'" "hasOwnProperty row tr'" by blast
          then have "(k, tr') \<in> set E" by (auto dest: map_of_SomeD)
          with fired [of "(k, tr')"] \<open>hasOwnProperty row tr'\<close> True show False by auto
        qed
        with True IH e v1 kk \<open>hasOwnProperty row tr\<close> show ?thesis by auto
      next
        case False
        with kk IH e v1 show ?thesis by auto
      qed
    qed
  qed
qed

lemma initialize_loop_distinct:
  "forEachE (initialize_attr attrs) ks T = Inr T' \<Longrightarrow> distinct (map fst T) \<Longrightarrow> distinct (map fst T')"
proof (induction ks arbitrary: T)
  case Nil
  then show ?case by simp
next
  case (Cons k ks)
  from Cons.prems(1) obtain T1 where
    k: "initialize_attr attrs k T = Inr T1" and rest: "forEachE (initialize_attr attrs) ks T1 = Inr T'"
    by (auto split: sum.splits)
  from k Cons.prems(2) have "distinct (map fst T1)"
    by (auto simp: initialize_attr_eq distinct_update split: option.splits jsval.splits if_splits)
  with rest show ?case by (rule Cons.IH)
qed

lemma Transformation_distinct:
  "Transformation attrs = Inr self \<Longrightarrow> distinct (map fst (transformations self))"
  by (auto simp: Transformation_def initialize_def split: sum.splits
      dest: initialize_loop_distinct)

lemma distinct_snd_inj:
  "distinct (map snd T) \<Longrightarrow> (a, c) \<in> set T \<Longrightarrow> (b, c) \<in> set T \<Longrightarrow> a = b"
proof -
  assume "distinct (map snd T)" "(a, c) \<in> set T" "(b, c) \<in> set T"
  then have "inj_on snd (set T)" "snd (a, c) = snd (b, c)" by (simp_all add: distinct_map)
  with \<open>(a, c) \<in> set T\<close> \<open>(b, c) \<in> set T\<close> have "(a, c) = (b, c)" by (meson inj_onD)
  then show "a = b" by simp
qed

text \<open>
  Claim C1, amended.  Let \<open>self\<close> be the transformer built from the attribute declarations,
  let its column names be pairwise distinct, and let none of them be a key of the record
  \<open>r\<close>.  Let every value of \<open>r\<close> be primitive (\<^verbatim>\<open>undefined\<close>, \<^verbatim>\<open>null\<close>, a boolean, a number
  or text), and let every value that is text be the value of a key that is itself a declared
  attribute, with a truthy declaration whose type is neither \<^verbatim>\<open>date\<close> nor \<^verbatim>\<open>datetime\<close>.  Let
  \<^verbatim>\<open>where\<close> be absent from \<open>r\<close> or \<^verbatim>\<open>undefined\<close> in it, and let \<^verbatim>\<open>__proto__\<close> be neither a
  key of \<open>r\<close> nor the name of a mapped attribute nor a column name.  Then \<^verbatim>\<open>serialize\<close> in
  value mode returns an object, and
  \<^verbatim>\<open>unserialize\<close> of that object has exactly the keys and values of \<open>r\<close>.

  The condition on text cannot be dropped for a key that is not declared: such a key takes
  the attribute of the key visited before it (line 193), and its text is parsed into a date
  if that attribute is a date.
\<close>

theorem serialize_unserialize_roundtrip:
  assumes tr: "Transformation attrs = Inr self"
    and dr: "distinct (map fst r)"
    and prim: "\<forall>(p, v)\<in>set r. isPrimitive v"
    and nodate: "\<forall>(p, v)\<in>set r. isString v \<longrightarrow>
          (\<exists>d. map_of (attributes self) p = Some d \<and> truthy d \<and> \<not> is_date_type (attr_type d))"
    and nowhere: "js_get r ''where'' = JUndefined"
    and inj: "distinct (map snd (transformations self))"
    and disj: "set (map snd (transformations self)) \<inter> set (map fst r) = {}"
    and proto: "''__proto__'' \<notin> set (map fst r) \<union> set (map fst (transformations self)) \<union>
          set (map snd (transformations self))"
  shows "\<exists>row. serialize self (JObj Plain r) JUndefined = Inr (JObj Plain row) \<and>
           map_of (unserialize self row) = map_of r"
proof -
  let ?T = "transformations self"
  have dT: "distinct (map fst ?T)" using tr by (rule Transformation_distinct)
  have col: "map_of ?T a = Some c \<Longrightarrow> (a, c) \<in> set ?T" for a c by (rule map_of_SomeD)
  have colr: "(a, c) \<in> set ?T \<Longrightarrow> map_of r c = None" for a c
    using disj by (force simp: map_of_eq_None_iff)
  have p2: "\<forall>a\<in>set (map fst r). \<exists>v. map_of r a = Some v \<and> leaf_ok self a v"
  proof
    fix a assume "a \<in> set (map fst r)"
    then obtain v where v: "(a, v) \<in> set r" by auto
    with dr have "map_of r a = Some v" by simp
    moreover from v prim nodate have "leaf_ok self a v"
      by (fastforce simp: leaf_ok_def)
    ultimately show "\<exists>v. map_of r a = Some v \<and> leaf_ok self a v" by blast
  qed
  have p3: "\<forall>a\<in>set (map fst r). \<forall>c. map_of ?T a = Some c \<longrightarrow> map_of r c = None"
    using col colr by blast
  have p4: "\<forall>a\<in>set (map fst r). \<forall>b\<in>set (map fst r). \<forall>c. map_of ?T a = Some c \<longrightarrow>
           map_of ?T b = Some c \<longrightarrow> a = b"
    using col distinct_snd_inj [OF inj] by blast
  let ?rec = "recursiveSerialize (depth (JObj Plain r)) self"
  from serialize_loop [OF dr p2 p3 p4, of ?rec JUndefined]
  obtain row pa' where
    run: "forEachO (visit ?rec self) (map fst r) (r, JUndefined) = Some (row, pa')" and
    r1: "\<And>a c. a \<in> set (map fst r) \<Longrightarrow> map_of ?T a = Some c \<Longrightarrow>
           map_of row c = map_of r a \<and> map_of row a = None" and
    r2: "\<And>a. a \<in> set (map fst r) \<Longrightarrow> map_of ?T a = None \<Longrightarrow> map_of row a = map_of r a" and
    r3: "\<And>k. k \<notin> set (map fst r) \<Longrightarrow> (\<forall>a\<in>set (map fst r). map_of ?T a \<noteq> Some k) \<Longrightarrow>
           map_of row k = map_of r k"
    by blast
  have ser: "serialize self (JObj Plain r) JUndefined = Inr (JObj Plain row)"
    using nowhere run by (simp add: serialize_def of_option_def del: depth.simps)
  have keys: "a \<in> set (map fst r) \<longleftrightarrow> map_of r a \<noteq> None" for a
    by (simp add: map_of_eq_None_iff)
  have dom_row: "(\<exists>a\<in>set (map fst r). map_of ?T a = Some k) \<or>
                 (k \<in> set (map fst r) \<and> map_of ?T k = None)"
    if "hasOwnProperty row k" for k
  proof (rule ccontr)
    assume n: "\<not> ?thesis"
    show False
    proof (cases "k \<in> set (map fst r)")
      case True
      with n obtain c where "map_of ?T k = Some c" by auto
      with True r1 have "map_of row k = None" by blast
      with that show False by (simp add: hasOwnProperty_def)
    next
      case False
      with n r3 have "map_of row k = map_of r k" by blast
      with False keys that show False by (simp add: hasOwnProperty_def)
    qed
  qed
  have fired_key: "key \<in> set (map fst r)"
    if "(key, t) \<in> set ?T" "hasOwnProperty row t" for key t
  proof -
    from colr [OF that(1)] have "t \<notin> set (map fst r)" by (simp only: keys) simp
    with dom_row [OF that(2)] obtain a where a: "a \<in> set (map fst r)" "map_of ?T a = Some t"
      by blast
    with that(1) distinct_snd_inj [OF inj] col have "a = key" by blast
    with a show ?thesis by simp
  qed
  have p5: "\<forall>e\<in>set ?T. \<forall>e'\<in>set ?T. hasOwnProperty row (snd e) \<longrightarrow>
        hasOwnProperty row (snd e') \<longrightarrow> snd e \<noteq> fst e'"
  proof (intro ballI impI)
    fix e e' assume e: "e \<in> set ?T" "e' \<in> set ?T" "hasOwnProperty row (snd e')"
    then have "fst e' \<in> set (map fst r)" using fired_key [of "fst e'" "snd e'"] by simp
    moreover from e(1) colr [of "fst e" "snd e"] have "snd e \<notin> set (map fst r)"
      by (simp only: keys) simp
    ultimately show "snd e \<noteq> fst e'" by metis
  qed
  have "map_of (unserialize self row) k = map_of r k" for k
  proof -
    have u: "map_of (unserialize self row) k =
       (if (\<exists>t. map_of ?T k = Some t \<and> hasOwnProperty row t) then map_of row (the (map_of ?T k))
        else if k \<in> snd ` set ?T \<and> hasOwnProperty row k then None
        else map_of row k)"
      unfolding unserialize_def by (rule unserialize_fold [OF dT p5])
    show ?thesis
    proof (cases "k \<in> set (map fst r)")
      case True
      show ?thesis
      proof (cases "map_of ?T k")
        case None
        have "k \<notin> snd ` set ?T" using True colr keys by force
        with None u r2 [OF True None] show ?thesis by simp
      next
        case (Some c)
        from r1 [OF True Some] True keys have "hasOwnProperty row c" "map_of row c = map_of r k"
          by (auto simp: hasOwnProperty_def)
        with Some u show ?thesis by simp
      qed
    next
      case False
      then have rk: "map_of r k = None" by (simp add: map_of_eq_None_iff)
      have nf: "\<not> (\<exists>t. map_of ?T k = Some t \<and> hasOwnProperty row t)"
        using fired_key col False by blast
      show ?thesis
      proof (cases "hasOwnProperty row k")
        case True
        from dom_row [OF True] False have "k \<in> snd ` set ?T"
          using col by force
        with True nf u rk show ?thesis by (simp only: if_False if_True simp_thms)
      next
        case False
        then have "map_of row k = None" by (simp add: hasOwnProperty_def)
        with nf u rk False show ?thesis by (simp only: if_False if_True simp_thms)
      qed
    qed
  qed
  then have "map_of (unserialize self row) = map_of r" by (rule ext)
  with ser show ?thesis by blast
qed
section \<open>Concrete instances for the transformer\<close>


theorem initialize_columnName_witness:
  "initialize person_attributes = Inr [(''fullName'', ''full_name'')] \<and>
   (\<exists>k es. map_of person_attributes ''fullName'' = Some (JObj k es) \<and>
      map_of es ''columnName'' = Some (JStr ''full_name'') \<and> ''full_name'' \<noteq> ''fullName'') \<and>
   initialize broken_attributes = Inl (ConfigError ''columnName transformation must be a string'')"
proof -
  have run: "initialize person_attributes = Inr [(''fullName'', ''full_name'')]"
    by (simp add: initialize_def initialize_attr_def initialize_key_def
        person_attributes_def js_get_def)
  note entry = initialize_columnName [of person_attributes, THEN conjunct2, THEN conjunct2,
      THEN conjunct1, rule_format, OF run]
  have good: "\<exists>k es. map_of person_attributes ''fullName'' = Some (JObj k es) \<and>
      map_of es ''columnName'' = Some (JStr ''full_name'') \<and> ''full_name'' \<noteq> ''fullName''"
    by (rule entry [THEN iffD1]) simp
  note throws = initialize_columnName [of broken_attributes, THEN conjunct1]
  have "\<exists>a k es v. map_of broken_attributes a = Some (JObj k es) \<and>
      map_of es ''columnName'' = Some v \<and> \<not> isString v"
    by (rule exI [of _ "''age''"], rule exI [of _ Plain],
        rule exI [of _ "[(''columnName'', JNum 7)]"], rule exI [of _ "JNum 7"])
      (simp add: broken_attributes_def)
  then have "\<exists>e. initialize broken_attributes = Inl e" by (rule throws [THEN iffD2])
  then obtain e where e: "initialize broken_attributes = Inl e" ..
  note what = initialize_columnName [of broken_attributes, THEN conjunct2, THEN conjunct1,
      rule_format, OF e]
  from run good e what show ?thesis by simp
qed

lemma Transformation_person: "Transformation person_attributes = Inr person"
  by (simp add: Transformation_def initialize_def initialize_attr_def initialize_key_def
      person_attributes_def person_def js_get_def)

lemma Transformation_clash: "Transformation clash_attributes = Inr clash"
  by (simp add: Transformation_def initialize_def initialize_attr_def initialize_key_def
      clash_attributes_def clash_def js_get_def)

theorem serialize_unserialize_roundtrip_witness:
  "\<exists>row. serialize person (JObj Plain person_record) JUndefined = Inr (JObj Plain row) \<and>
     map_of (unserialize person row) = map_of person_record"
proof (rule serialize_unserialize_roundtrip [OF Transformation_person])
  show "distinct (map fst person_record)" by (simp add: person_record_def)
  show "\<forall>(p, v)\<in>set person_record. isPrimitive v" by (simp add: person_record_def)
  show "\<forall>(p, v)\<in>set person_record. isString v \<longrightarrow>
     (\<exists>d. map_of (attributes person) p = Some d \<and> truthy d \<and> \<not> is_date_type (attr_type d))"
    by (simp add: person_record_def person_def person_attributes_def is_date_type_def
        attr_type_def js_or_def js_get_def)
  show "js_get person_record ''where'' = JUndefined" by (simp add: person_record_def js_get_def)
  show "distinct (map snd (transformations person))" by (simp add: person_def)
  show "set (map snd (transformations person)) \<inter> set (map fst person_record) = {}"
    by (simp add: person_def person_record_def)
  show "''__proto__'' \<notin> set (map fst person_record) \<union> set (map fst (transformations person)) \<union>
          set (map snd (transformations person))"
    by (simp add: person_def person_record_def)
qed

lemma recursiveSerialize_object:
  "recursiveSerialize (Suc n) self (JObj k es) pa =
     map_option (\<lambda>st. JObj k (fst st))
       (forEachO (visit (recursiveSerialize n self) self) (map fst es) (es, pa))"
  by simp

lemma person_map:
  "map_of (transformations person) k = (if k = ''fullName'' then Some ''full_name'' else None)"
  by (simp add: person_def)

lemma clash_map:
  "map_of (transformations clash) k = (if k = ''name'' then Some ''title'' else None)"
  by (simp add: clash_def)

lemma governing_clash:
  "governing clash ''name'' pa =
     JObj Plain [(''type'', JStr ''string''), (''columnName'', JStr ''title'')]"
  "governing clash ''title'' pa = JObj Plain [(''type'', JStr ''string'')]"
  by (simp_all add: governing_def js_read_def clash_def clash_attributes_def js_or_def)

lemma serialize_clash:
  "serialize clash (JObj Plain clash_record) JUndefined =
     Inr (JObj Plain [(''title'', JStr ''Ada'')])"
proof -
  have "recursiveSerialize (Suc n) clash (JObj Plain clash_record) JUndefined =
      Some (JObj Plain [(''title'', JStr ''Ada'')])" for n
    unfolding clash_record_def recursiveSerialize_object
    by (simp add: visit_def clash_map governing_clash attr_type_def js_or_def js_get_def
        hasOwnProperty_def Let_def)
  then show ?thesis
    by (simp add: serialize_def of_option_def clash_record_def js_get_def
        del: recursiveSerialize.simps depth.simps)
qed

lemma governing_person_date:
  "governing person ''born'' pa = JObj Plain [(''type'', JStr ''date'')]"
  "governing person ''nick'' pa = pa"
  "governing person ''extra'' pa = pa"
  by (simp_all add: governing_def transformation_key_def js_read_def inherited_def
      object_prototype_def person_def person_attributes_def js_or_def)

lemma serialize_nick:
  "serialize person (JObj Plain [(''born'', JNull), (''nick'', JStr ''x'')]) JUndefined =
     Inr (JObj Plain [(''born'', JNull), (''nick'', JDate ''x'')])"
proof -
  have "recursiveSerialize (Suc n) person (JObj Plain [(''born'', JNull), (''nick'', JStr ''x'')])
      JUndefined = Some (JObj Plain [(''born'', JNull), (''nick'', JDate ''x'')])" for n
    unfolding recursiveSerialize_object
    by (simp add: visit_def person_map governing_person_date attr_type_def js_or_def js_get_def
        hasOwnProperty_def Let_def)
  then show ?thesis
    by (simp add: serialize_def of_option_def js_get_def
        del: recursiveSerialize.simps depth.simps)
qed

text \<open>
  The claim as it is written fails where a column name is the name of another attribute: the
  record \<^verbatim>\<open>{name: 'Ada', title: 'Dr'}\<close> comes back as \<^verbatim>\<open>{name: 'Ada'}\<close>.  It also fails for
  text under a key that is not declared and follows a date: \<^verbatim>\<open>{born: null, nick: 'x'}\<close> comes
  back with the date parsed from \<^verbatim>\<open>'x'\<close> under \<^verbatim>\<open>nick\<close>.
\<close>

theorem roundtrip_counterexample:
  "Transformation clash_attributes = Inr clash \<and>
   serialize clash (JObj Plain clash_record) JUndefined =
     Inr (JObj Plain [(''title'', JStr ''Ada'')]) \<and>
   unserialize clash [(''title'', JStr ''Ada'')] = [(''name'', JStr ''Ada'')] \<and>
   map_of [(''name'', JStr ''Ada'')] ''title'' \<noteq> map_of clash_record ''title'' \<and>
   Transformation person_attributes = Inr person \<and>
   serialize person (JObj Plain [(''born'', JNull), (''nick'', JStr ''x'')]) JUndefined =
     Inr (JObj Plain [(''born'', JNull), (''nick'', JDate ''x'')]) \<and>
   unserialize person [(''born'', JNull), (''nick'', JDate ''x'')] =
     [(''born'', JNull), (''nick'', JDate ''x'')]"
  by (simp add: Transformation_clash Transformation_person serialize_clash serialize_nick)
    (simp add: hasOwnProperty_def unserialize_def unserialize_key_def clash_def person_def
      clash_record_def js_get_def Let_def)

lemma governing_person:
  "governing person ''data'' pa = JObj Plain [(''type'', JStr ''json'')]"
  "governing person ''or'' pa = pa"
  "governing person ''0'' pa = pa"
  "governing person ''fullName'' pa =
     JObj Plain [(''type'', JStr ''string''), (''columnName'', JStr ''full_name'')]"
  by (simp_all add: governing_def transformation_key_def js_read_def inherited_def
      object_prototype_def person_def person_attributes_def js_or_def)

lemma person_child:
  "recursiveSerialize (Suc n) person or_child pa =
     Some (JObj Plain [(''full_name'', JStr ''Ada'')])"
  unfolding or_child_def recursiveSerialize_object
  by (simp add: visit_def person_map governing_person attr_type_def js_or_def js_get_def
      hasOwnProperty_def Let_def)

lemma person_or_plain:
  "recursiveSerialize (Suc (Suc n)) person (JObj Array [(''0'', or_child)]) JUndefined =
     Some (JObj Array [(''0'', JObj Plain [(''full_name'', JStr ''Ada'')])])"
  unfolding recursiveSerialize_object [of "Suc n"]
  by (simp add: visit_def in_place_def person_map governing_person attr_type_def js_get_def
      hasOwnProperty_def Let_def person_child or_child_def [symmetric]
      del: recursiveSerialize.simps)
    (simp add: or_child_def)

lemma person_or_json:
  "recursiveSerialize (Suc n) person (JObj Array [(''0'', or_child)])
     (JObj Plain [(''type'', JStr ''json'')]) = Some (JObj Array [(''0'', or_child)])"
  unfolding recursiveSerialize_object
  by (simp add: visit_def person_map governing_person attr_type_def js_or_def js_get_def
      hasOwnProperty_def Let_def or_child_def del: recursiveSerialize.simps)

lemma where_or_last:
  "recursiveSerialize (Suc (Suc n)) person
     (JObj Plain [(''data'', JNum 5), (''or'', JObj Array [(''0'', or_child)])]) JUndefined =
   Some (JObj Plain [(''data'', JNum 5), (''or'', JObj Array [(''0'', or_child)])])"
  unfolding recursiveSerialize_object [of "Suc n"]
  by (simp add: visit_def in_place_def person_map governing_person attr_type_def js_or_def
      js_get_def hasOwnProperty_def Let_def person_or_json del: recursiveSerialize.simps)

lemma where_or_first:
  "recursiveSerialize (Suc (Suc (Suc n))) person
     (JObj Plain [(''or'', JObj Array [(''0'', or_child)]), (''data'', JNum 5)]) JUndefined =
   Some (JObj Plain [(''or'', JObj Array [(''0'', JObj Plain [(''full_name'', JStr ''Ada'')])]),
                     (''data'', JNum 5)])"
  unfolding recursiveSerialize_object [of "Suc (Suc n)"]
  by (simp add: visit_def in_place_def person_map governing_person attr_type_def js_or_def
      js_get_def hasOwnProperty_def Let_def person_or_plain del: recursiveSerialize.simps)

lemma depth_where:
  "depth (JObj Plain [(''data'', JNum 5), (''or'', JObj Array [(''0'', or_child)])]) = Suc (Suc (Suc 0))"
  "depth (JObj Plain [(''or'', JObj Array [(''0'', or_child)]), (''data'', JNum 5)]) = Suc (Suc (Suc 0))"
  by (simp_all add: or_child_def)

lemma transform_array_absent:
  "js_get criteria field = JUndefined \<Longrightarrow> transform_array T field criteria = Some criteria"
  by (simp add: transform_array_def)

lemma transform_sort_absent:
  "js_get criteria ''sort'' = JUndefined \<Longrightarrow> transform_sort T criteria = criteria"
  by (simp add: transform_sort_def)

lemma transform_criteria_where_only:
  "transform_criteria T [(''where'', w)] = Some [(''where'', w)]"
proof -
  have absent: "js_get [(''where'', w)] ''select'' = JUndefined"
    "js_get [(''where'', w)] ''sort'' = JUndefined"
    "js_get [(''where'', w)] ''sum'' = JUndefined"
    "js_get [(''where'', w)] ''average'' = JUndefined"
    "js_get [(''where'', w)] ''min'' = JUndefined"
    "js_get [(''where'', w)] ''max'' = JUndefined"
    "js_get [(''where'', w)] ''groupBy'' = JUndefined"
    by (simp_all add: js_get_def)
  show ?thesis
    unfolding transform_criteria_def
    by (simp add: transform_array_absent transform_sort_absent absent)
qed

lemma serialize_where_only:
  assumes "w \<noteq> JUndefined" "recursiveSerialize (Suc (depth w)) self w JUndefined = Some w'"
  shows "serialize self (JObj Plain [(''where'', w)]) JUndefined =
           Inr (JObj Plain [(''where'', w')])"
proof -
  have here: "js_get [(''where'', w)] ''where'' = w" by (simp add: js_get_def)
  from assms(1) have defined: "\<not> isUndefined w" by (cases w) simp_all
  show ?thesis
    unfolding serialize_def Let_def
    by (simp add: transform_criteria_where_only here assms(2) defined
        del: recursiveSerialize.simps depth.simps)
qed

text \<open>
  Claim C5 at a criteria object whose \<^verbatim>\<open>where\<close> holds a condition on the \<^verbatim>\<open>json\<close> attribute
  before an \<^verbatim>\<open>or\<close> node.  The variable \<^verbatim>\<open>parentAttr\<close> still holds the \<^verbatim>\<open>json\<close> attribute when
  the \<^verbatim>\<open>or\<close> node is visited, so the child of the node is not traversed and its mapped
  attribute keeps its name.  With the two keys in the other order the child is traversed.
\<close>

theorem serialize_or_after_json:
  "serialize person criteria_or_last JUndefined = Inr criteria_or_last \<and>
   serialize person criteria_or_first JUndefined =
     Inr (JObj Plain [(''where'', JObj Plain
            [(''or'', JObj Array [(''0'', JObj Plain [(''full_name'', JStr ''Ada'')])]),
             (''data'', JNum 5)])])"
proof -
  have "serialize person criteria_or_last JUndefined = Inr criteria_or_last"
    unfolding criteria_or_last_def
  proof (rule serialize_where_only)
    show "JObj Plain [(''data'', JNum 5), (''or'', JObj Array [(''0'', or_child)])] \<noteq> JUndefined"
      by simp
  qed (simp only: depth_where where_or_last)
  moreover have "serialize person criteria_or_first JUndefined =
     Inr (JObj Plain [(''where'', JObj Plain
            [(''or'', JObj Array [(''0'', JObj Plain [(''full_name'', JStr ''Ada'')])]),
             (''data'', JNum 5)])])"
    unfolding criteria_or_first_def
  proof (rule serialize_where_only)
    show "JObj Plain [(''or'', JObj Array [(''0'', or_child)]), (''data'', JNum 5)] \<noteq> JUndefined"
      by simp
  qed (simp only: depth_where where_or_first)
  ultimately show ?thesis by simp
qed

lemma person_date_child:
  "recursiveSerialize (Suc n) person date_child JUndefined = Some parsed_child"
  unfolding date_child_def parsed_child_def recursiveSerialize_object
  by (simp add: visit_def person_map governing_person_date attr_type_def js_or_def js_get_def
      hasOwnProperty_def Let_def)

lemma person_date_or_plain:
  "recursiveSerialize (Suc (Suc n)) person (JObj Array [(''0'', date_child)]) JUndefined =
     Some (JObj Array [(''0'', parsed_child)])"
  unfolding recursiveSerialize_object [of "Suc n"]
  by (simp add: visit_def in_place_def person_map governing_person attr_type_def js_get_def
      hasOwnProperty_def Let_def person_date_child date_child_def [symmetric]
      del: recursiveSerialize.simps)
    (simp add: date_child_def)

lemma person_date_or_json:
  "recursiveSerialize (Suc n) person (JObj Array [(''0'', date_child)])
     (JObj Plain [(''type'', JStr ''json'')]) = Some (JObj Array [(''0'', date_child)])"
  unfolding recursiveSerialize_object
  by (simp add: visit_def person_map governing_person attr_type_def js_or_def js_get_def
      hasOwnProperty_def Let_def date_child_def del: recursiveSerialize.simps)

lemma where_date_last:
  "recursiveSerialize (Suc (Suc n)) person
     (JObj Plain [(''data'', JNum 5), (''or'', JObj Array [(''0'', date_child)])]) JUndefined =
   Some (JObj Plain [(''data'', JNum 5), (''or'', JObj Array [(''0'', date_child)])])"
  unfolding recursiveSerialize_object [of "Suc n"]
  by (simp add: visit_def in_place_def person_map governing_person attr_type_def js_or_def
      js_get_def hasOwnProperty_def Let_def person_date_or_json del: recursiveSerialize.simps)

lemma where_date_first:
  "recursiveSerialize (Suc (Suc (Suc n))) person
     (JObj Plain [(''or'', JObj Array [(''0'', date_child)]), (''data'', JNum 5)]) JUndefined =
   Some (JObj Plain [(''or'', JObj Array [(''0'', parsed_child)]), (''data'', JNum 5)])"
  unfolding recursiveSerialize_object [of "Suc (Suc n)"]
  by (simp add: visit_def in_place_def person_map governing_person attr_type_def js_or_def
      js_get_def hasOwnProperty_def Let_def person_date_or_plain del: recursiveSerialize.simps)

lemma depth_date_where:
  "depth (JObj Plain [(''data'', JNum 5), (''or'', JObj Array [(''0'', date_child)])]) = Suc (Suc (Suc 0))"
  "depth (JObj Plain [(''or'', JObj Array [(''0'', date_child)]), (''data'', JNum 5)]) = Suc (Suc (Suc 0))"
  "depth record_date_last = Suc (Suc 0)"
  "depth record_date_first = Suc (Suc 0)"
  by (simp_all add: date_child_def record_date_last_def record_date_first_def)

lemma record_last:
  "recursiveSerialize (Suc (Suc n)) person record_date_last JUndefined = Some record_date_last"
  unfolding record_date_last_def recursiveSerialize_object [of "Suc n"]
  by (simp add: visit_def in_place_def person_map governing_person governing_person_date
      attr_type_def js_or_def js_get_def hasOwnProperty_def Let_def date_child_def
      del: recursiveSerialize.simps)

lemma record_first:
  "recursiveSerialize (Suc (Suc n)) person record_date_first JUndefined =
     Some (JObj Plain [(''extra'', parsed_child), (''data'', JNum 5)])"
  unfolding record_date_first_def recursiveSerialize_object [of "Suc n"]
  by (simp add: visit_def in_place_def person_map governing_person governing_person_date
      attr_type_def js_or_def js_get_def hasOwnProperty_def Let_def person_date_child
      date_child_def [symmetric] del: recursiveSerialize.simps)
    (simp add: date_child_def)

lemma serialize_value_mode:
  assumes "js_get r ''where'' = JUndefined"
    "recursiveSerialize (Suc (depth (JObj Plain r))) self (JObj Plain r) JUndefined = Some v'"
  shows "serialize self (JObj Plain r) JUndefined = Inr v'"
  using assms by (simp add: serialize_def of_option_def del: recursiveSerialize.simps depth.simps)

text \<open>
  Claim C6 at a criteria object and at a record in which text under the attribute \<^verbatim>\<open>born\<close>,
  declared \<^verbatim>\<open>date\<close>, lies in an object that is visited after the \<^verbatim>\<open>json\<close> attribute \<^verbatim>\<open>data\<close>:
  the child of an \<^verbatim>\<open>or\<close> node, and the value of a key that is not declared.  The object
  takes the \<^verbatim>\<open>json\<close> attribute of the key visited before it (line 193), is not traversed
  (line 200), and the text stays text.  With the keys in the other order the text is parsed.
\<close>

theorem serialize_date_after_json:
  "serialize person criteria_date_last JUndefined = Inr criteria_date_last \<and>
   serialize person criteria_date_first JUndefined =
     Inr (JObj Plain [(''where'', JObj Plain
            [(''or'', JObj Array [(''0'', JObj Plain [(''born'', JDate ''2020-01-01'')])]),
             (''data'', JNum 5)])]) \<and>
   serialize person record_date_last JUndefined = Inr record_date_last \<and>
   serialize person record_date_first JUndefined =
     Inr (JObj Plain [(''extra'', JObj Plain [(''born'', JDate ''2020-01-01'')]),
                      (''data'', JNum 5)])"
proof -
  have 1: "serialize person criteria_date_last JUndefined = Inr criteria_date_last"
    unfolding criteria_date_last_def
  proof (rule serialize_where_only)
    show "JObj Plain [(''data'', JNum 5), (''or'', JObj Array [(''0'', date_child)])] \<noteq> JUndefined"
      by simp
  qed (simp only: depth_date_where where_date_last)
  have 2: "serialize person criteria_date_first JUndefined =
     Inr (JObj Plain [(''where'', JObj Plain
            [(''or'', JObj Array [(''0'', parsed_child)]), (''data'', JNum 5)])])"
    unfolding criteria_date_first_def
  proof (rule serialize_where_only)
    show "JObj Plain [(''or'', JObj Array [(''0'', date_child)]), (''data'', JNum 5)] \<noteq> JUndefined"
      by simp
  qed (simp only: depth_date_where where_date_first)
  have 3: "serialize person record_date_last JUndefined = Inr record_date_last"
    unfolding record_date_last_def
  proof (rule serialize_value_mode)
    show "js_get [(''data'', JNum 5), (''extra'', date_child)] ''where'' = JUndefined"
      by (simp add: js_get_def)
  qed (simp only: depth_date_where [unfolded record_date_last_def]
      record_last [unfolded record_date_last_def])
  have 4: "serialize person record_date_first JUndefined =
     Inr (JObj Plain [(''extra'', parsed_child), (''data'', JNum 5)])"
    unfolding record_date_first_def
  proof (rule serialize_value_mode)
    show "js_get [(''extra'', date_child), (''data'', JNum 5)] ''where'' = JUndefined"
      by (simp add: js_get_def)
  qed (simp only: depth_date_where [unfolded record_date_first_def]
      record_first [unfolded record_date_first_def])
  from 1 2 3 4 show ?thesis by (simp add: parsed_child_def)
qed

section \<open>Properties of record creation\<close>

subsection \<open>The resolution of the associations\<close>

lemma resolution_silent: "is_resolution e \<Longrightarrow> is_silent e"
  by (cases e) simp_all

lemma list_resolution_silent: "list_all is_resolution R \<Longrightarrow> list_all is_silent R"
  by (induction R) (simp_all add: resolution_silent)

lemma run_inv_failedI:
  "finished st \<Longrightarrow> trace st = R @ cb e v @ R' \<Longrightarrow> list_all is_silent R \<Longrightarrow>
   list_all is_silent R' \<Longrightarrow> truthy e \<Longrightarrow> run_inv self mods cb meta ks st"
  unfolding run_inv_def by auto

lemma run_inv_resolvedI:
  assumes "finished st" "trace st = R @ cb JNull v" "todo st = []" "inflight st = []"
    "resolved self mods meta ks R v"
  shows "run_inv self mods cb meta ks st"
proof -
  from assms(5) have "list_all is_silent R"
    by (simp add: resolved_def list_resolution_silent)
  with assms show ?thesis
    unfolding run_inv_def
    by (simp, intro exI [of _ R] exI [of _ JNull] exI [of _ v] exI [of _ "[]"]) simp
qed

lemma run_inv_stuckI:
  "\<not> finished st \<Longrightarrow> stuck st \<Longrightarrow> list_all is_silent (trace st) \<Longrightarrow>
   run_inv self mods cb meta ks st"
  unfolding run_inv_def by simp

lemma run_inv_pendingI:
  assumes "\<not> finished st" "ks = processed @ todo st" "list_all is_resolution (trace st)"
    and t: "\<And>i. i \<in> set processed \<Longrightarrow> belongsTo_query self mods meta i \<noteq> Throw"
    and a: "\<And>i q. i \<in> set processed \<Longrightarrow> asked self mods meta i = Some q \<Longrightarrow>
      Query i (fst q) (snd q) \<in> set (trace st) \<and>
      (i \<in> fst ` set (inflight st) \<or>
       Done i (fst (exec self i (fst q) (snd q))) (snd (exec self i (fst q) (snd q)))
         \<in> set (trace st) \<and>
       succeeds self i q \<and> js_get (values st) i = pk_answer self i q)"
    and c: "\<And>i q. (i, q) \<in> set (inflight st) \<Longrightarrow> asked self mods meta i = Some q"
  shows "run_inv self mods cb meta ks st"
proof -
  have body: "ks = processed @ todo st \<and>
     list_all is_resolution (trace st) \<and>
     (\<forall>item\<in>set processed. belongsTo_query self mods meta item \<noteq> Throw) \<and>
     (\<forall>item\<in>set processed. \<forall>q. asked self mods meta item = Some q \<longrightarrow>
        Query item (fst q) (snd q) \<in> set (trace st) \<and>
        (item \<in> fst ` set (inflight st) \<or>
         Done item (fst (exec self item (fst q) (snd q)))
           (snd (exec self item (fst q) (snd q))) \<in> set (trace st) \<and>
         succeeds self item q \<and> js_get (values st) item = pk_answer self item q)) \<and>
     (\<forall>item q. (item, q) \<in> set (inflight st) \<longrightarrow> asked self mods meta item = Some q)"
    using assms(2,3) t a c by blast
  have sil: "list_all is_silent (trace st)"
    using assms(3) by (rule list_resolution_silent)
  show ?thesis
    unfolding run_inv_def if_not_P [OF assms(1)]
    by (rule conjI [OF sil], rule disjI2, rule exI [of _ processed]) (rule body)
qed

lemma run_inv_finishedE:
  assumes "run_inv self mods cb meta ks st" "finished st"
  obtains (failed) R e v R' where "trace st = R @ cb e v @ R'" "list_all is_silent R"
      "list_all is_silent R'" "truthy e"
  | (resolved) R v where "trace st = R @ cb JNull v" "todo st = []" "inflight st = []"
      "resolved self mods meta ks R v"
proof -
  from assms obtain R e v R' where
    t: "trace st = R @ cb e v @ R'" "list_all is_silent R" "list_all is_silent R'"
    "truthy e \<or> (e = JNull \<and> R' = [] \<and> todo st = [] \<and> inflight st = [] \<and>
       resolved self mods meta ks R v)"
    unfolding run_inv_def by (simp only: if_True) blast
  show thesis
  proof (cases "truthy e")
    case True
    with t show ?thesis by (intro failed)
  next
    case False
    with t show ?thesis by (intro resolved [of R v]) simp_all
  qed
qed

lemma run_inv_silent:
  assumes "run_inv self mods cb meta ks st" "\<not> finished st"
  shows "list_all is_silent (trace st)"
  using assms unfolding run_inv_def by simp

lemma run_inv_pendingE:
  assumes "run_inv self mods cb meta ks st" "\<not> finished st" "\<not> stuck st"
  obtains processed where "ks = processed @ todo st" "list_all is_resolution (trace st)"
    "\<And>i. i \<in> set processed \<Longrightarrow> belongsTo_query self mods meta i \<noteq> Throw"
    "\<And>i q. i \<in> set processed \<Longrightarrow> asked self mods meta i = Some q \<Longrightarrow>
      Query i (fst q) (snd q) \<in> set (trace st) \<and>
      (i \<in> fst ` set (inflight st) \<or>
       Done i (fst (exec self i (fst q) (snd q))) (snd (exec self i (fst q) (snd q)))
         \<in> set (trace st) \<and>
       succeeds self i q \<and> js_get (values st) i = pk_answer self i q)"
    "\<And>i q. (i, q) \<in> set (inflight st) \<Longrightarrow> asked self mods meta i = Some q"
proof -
  from assms obtain processed where
    "ks = processed @ todo st \<and>
     list_all is_resolution (trace st) \<and>
     (\<forall>item\<in>set processed. belongsTo_query self mods meta item \<noteq> Throw) \<and>
     (\<forall>item\<in>set processed. \<forall>q. asked self mods meta item = Some q \<longrightarrow>
        Query item (fst q) (snd q) \<in> set (trace st) \<and>
        (item \<in> fst ` set (inflight st) \<or>
         Done item (fst (exec self item (fst q) (snd q)))
           (snd (exec self item (fst q) (snd q))) \<in> set (trace st) \<and>
         succeeds self item q \<and> js_get (values st) item = pk_answer self item q)) \<and>
     (\<forall>item q. (item, q) \<in> set (inflight st) \<longrightarrow> asked self mods meta item = Some q)"
    unfolding run_inv_def by (simp only: if_False simp_thms) blast
  then show thesis by (intro that [of processed]) blast+
qed

lemma dispatch_idle: "stuck st \<or> todo st = [] \<Longrightarrow> dispatch self mods meta st = st"
  by (auto simp: dispatch_def)

lemma dispatch_next:
  "\<not> stuck st \<Longrightarrow> todo st = item # rest \<Longrightarrow> belongsTo_query self mods meta item = Next \<Longrightarrow>
   dispatch self mods meta st = st\<lparr>todo := rest\<rparr>"
  by (simp add: dispatch_def)

lemma dispatch_throw:
  "\<not> stuck st \<Longrightarrow> todo st = item # rest \<Longrightarrow> belongsTo_query self mods meta item = Throw \<Longrightarrow>
   dispatch self mods meta st = st\<lparr>stuck := True, trace := trace st @ [Threw TypeError]\<rparr>"
  by (simp add: dispatch_def)

lemma dispatch_exec:
  "\<not> stuck st \<Longrightarrow> todo st = item # rest \<Longrightarrow> belongsTo_query self mods meta item = Exec q m \<Longrightarrow>
   dispatch self mods meta st =
     st\<lparr>todo := rest, inflight := inflight st @ [(item, q, m)],
        trace := trace st @ [Query item q m]\<rparr>"
  by (simp add: dispatch_def)

lemma asked_next: "belongsTo_query self mods meta item = Next \<Longrightarrow> asked self mods meta item = None"
  by (simp add: asked_def)

lemma asked_exec:
  "belongsTo_query self mods meta item = Exec q m \<Longrightarrow> asked self mods meta item = Some (q, m)"
  by (simp add: asked_def)

lemma run_inv_dispatch:
  assumes inv: "run_inv self mods cb meta ks st"
  shows "run_inv self mods cb meta ks (dispatch self mods meta st)"
proof (cases "stuck st \<or> todo st = []")
  case True
  with inv show ?thesis by (simp only: dispatch_idle)
next
  case live: False
  then obtain item rest where ns: "\<not> stuck st" and Cons: "todo st = item # rest"
    by (cases "todo st") auto
  show ?thesis
  proof (cases "finished st")
    case True
    from inv True show ?thesis
    proof (cases rule: run_inv_finishedE)
      case (failed R e v R')
      show ?thesis
      proof (cases "belongsTo_query self mods meta item")
        case Next
        show ?thesis
          unfolding dispatch_next [OF ns Cons Next] using True failed
          by (intro run_inv_failedI [of _ R cb e v R']) simp_all
      next
        case Throw
        show ?thesis
          unfolding dispatch_throw [OF ns Cons Throw] using True failed
          by (intro run_inv_failedI [of _ R cb e v "R' @ [Threw TypeError]"]) simp_all
      next
        case (Exec q m)
        show ?thesis
          unfolding dispatch_exec [OF ns Cons Exec] using True failed
          by (intro run_inv_failedI [of _ R cb e v "R' @ [Query item q m]"]) simp_all
      qed
    next
      case (resolved R v)
      with Cons show ?thesis by simp
    qed
  next
    case False
    from inv False ns show ?thesis
    proof (cases rule: run_inv_pendingE)
      case (1 processed)
      show ?thesis
      proof (cases "belongsTo_query self mods meta item")
        case Next
        show ?thesis
          unfolding dispatch_next [OF ns Cons Next]
        proof (rule run_inv_pendingI [where processed = "processed @ [item]"])
          fix i
          assume "i \<in> set (processed @ [item])"
          with Next 1(3) [of i] show "belongsTo_query self mods meta i \<noteq> Throw" by auto
        next
          fix i q
          assume "i \<in> set (processed @ [item])" "asked self mods meta i = Some q"
          with asked_next [OF Next] 1(4) [of i q]
          show "Query i (fst q) (snd q) \<in> set (trace (st\<lparr>todo := rest\<rparr>)) \<and>
            (i \<in> fst ` set (inflight (st\<lparr>todo := rest\<rparr>)) \<or>
             Done i (fst (exec self i (fst q) (snd q))) (snd (exec self i (fst q) (snd q)))
               \<in> set (trace (st\<lparr>todo := rest\<rparr>)) \<and>
             succeeds self i q \<and> js_get (values (st\<lparr>todo := rest\<rparr>)) i = pk_answer self i q)"
            by auto
        qed (use False Cons 1 in simp_all)
      next
        case Throw
        show ?thesis
          unfolding dispatch_throw [OF ns Cons Throw]
          using False run_inv_silent [OF inv False]
          by (intro run_inv_stuckI) simp_all
      next
        case (Exec q m)
        let ?ev = "Query item q m"
        let ?st' = "st\<lparr>todo := rest, inflight := inflight st @ [(item, q, m)],
            trace := trace st @ [?ev]\<rparr>"
        show ?thesis
          unfolding dispatch_exec [OF ns Cons Exec]
        proof (rule run_inv_pendingI [where processed = "processed @ [item]"])
          fix i
          assume "i \<in> set (processed @ [item])"
          with Exec 1(3) [of i] show "belongsTo_query self mods meta i \<noteq> Throw" by auto
        next
          fix i q'
          assume "i \<in> set (processed @ [item])" "asked self mods meta i = Some q'"
          with asked_exec [OF Exec] 1(4) [of i q']
          show "Query i (fst q') (snd q') \<in> set (trace ?st') \<and>
            (i \<in> fst ` set (inflight ?st') \<or>
             Done i (fst (exec self i (fst q') (snd q'))) (snd (exec self i (fst q') (snd q')))
               \<in> set (trace ?st') \<and>
             succeeds self i q' \<and> js_get (values ?st') i = pk_answer self i q')"
            by auto
        next
          fix i q'
          assume "(i, q') \<in> set (inflight ?st')"
          with asked_exec [OF Exec] 1(5) [of i q'] show "asked self mods meta i = Some q'"
            by auto
        qed (use False Cons 1 in simp_all)
      qed
    qed
  qed
qed

lemma run_inv_settle:
  assumes inv: "run_inv self mods cb meta ks st"
  shows "run_inv self mods cb meta ks (settle cb st)"
proof (cases "\<not> finished st \<and> \<not> stuck st \<and> todo st = [] \<and> inflight st = []")
  case False
  with inv show ?thesis by (auto simp: settle_def)
next
  case True
  then have nf: "\<not> finished st" and ns: "\<not> stuck st" and t: "todo st = []"
    and i: "inflight st = []" by auto
  let ?st' = "st\<lparr>finished := True, trace := trace st @ cb JNull (values st)\<rparr>"
  have s: "settle cb st = ?st'" using True by (simp add: settle_def)
  from inv nf ns show ?thesis
  proof (cases rule: run_inv_pendingE)
    case (1 processed)
    have "resolved self mods meta ks (trace st) (values st)"
      unfolding resolved_def
    proof (intro conjI ballI allI impI)
      show "list_all is_resolution (trace st)" by (rule 1(2))
    next
      fix item
      assume "item \<in> set ks"
      with 1(1) 1(3) [of item] t show "belongsTo_query self mods meta item \<noteq> Throw" by simp
    next
      fix item q
      assume "item \<in> set ks" "asked self mods meta item = Some q"
      with 1(1) 1(4) [of item q] t i
      show "Query item (fst q) (snd q) \<in> set (trace st)"
        "Done item (fst (exec self item (fst q) (snd q)))
           (snd (exec self item (fst q) (snd q))) \<in> set (trace st)"
        "succeeds self item q"
        "js_get (values st) item = pk_answer self item q"
        by auto
    qed
    then show ?thesis
      unfolding s using t i
      by (intro run_inv_resolvedI [of _ "trace st" cb "values st"]) simp_all
  qed
qed

lemma keys_delete: "fst ` set (AList.delete k al) = fst ` set al - {k}"
proof -
  have "set (map fst (AList.delete k al)) = set (removeAll k (map fst al))"
    by (simp only: delete_keys)
  then show ?thesis by simp
qed

lemma complete_absent: "map_of (inflight st) item = None \<Longrightarrow> complete self cb item st = st"
  by (simp add: complete_def)

lemma complete_error:
  assumes "map_of (inflight st) item = Some q" "exec self item (fst q) (snd q) = (err, val)"
    "truthy err"
  shows "complete self cb item st =
     (if finished st
      then st\<lparr>inflight := AList.delete item (inflight st), trace := trace st @ [Done item err val]\<rparr>
      else st\<lparr>inflight := AList.delete item (inflight st), finished := True,
             trace := (trace st @ [Done item err val]) @ cb err (values st)\<rparr>)"
  using assms by (simp add: complete_def Let_def)

lemma complete_throw:
  assumes "map_of (inflight st) item = Some q" "exec self item (fst q) (snd q) = (err, None)"
    "\<not> truthy err"
  shows "complete self cb item st =
     st\<lparr>inflight := AList.delete item (inflight st), stuck := True,
        trace := trace st @ [Done item err None, Threw TypeError]\<rparr>"
  using assms by (simp add: complete_def Let_def)

lemma complete_answer:
  assumes "map_of (inflight st) item = Some q"
    "exec self item (fst q) (snd q) = (err, Some row)" "\<not> truthy err"
  shows "complete self cb item st =
     st\<lparr>inflight := AList.delete item (inflight st),
        trace := trace st @ [Done item err (Some row)],
        values := AList.update item (pk_answer self item q) (values st)\<rparr>"
  using assms by (simp add: complete_def Let_def pk_answer_def)

lemma complete_finished:
  assumes "map_of (inflight st) item = Some q" "finished st"
  shows "finished (complete self cb item st) \<and>
     (\<exists>more. trace (complete self cb item st) = trace st @ more \<and> list_all is_silent more)"
proof -
  obtain err val where ex: "exec self item (fst q) (snd q) = (err, val)"
    by (cases "exec self item (fst q) (snd q)")
  show ?thesis
  proof (cases "truthy err")
    case True
    with assms(2) show ?thesis by (simp add: complete_error [OF assms(1) ex])
  next
    case False
    show ?thesis
    proof (cases val)
      case None
      with assms(2) False ex show ?thesis by (simp add: complete_throw [OF assms(1)])
    next
      case (Some row)
      with assms(2) False ex show ?thesis by (simp add: complete_answer [OF assms(1)])
    qed
  qed
qed

lemma run_inv_complete:
  assumes inv: "run_inv self mods cb meta ks st"
  shows "run_inv self mods cb meta ks (complete self cb item st)"
proof (cases "map_of (inflight st) item")
  case None
  with inv show ?thesis by (simp add: complete_absent)
next
  case (Some q)
  note inq = Some
  obtain err val where ex: "exec self item (fst q) (snd q) = (err, val)"
    by (cases "exec self item (fst q) (snd q)")
  let ?done = "Done item err val"
  have ne: "inflight st \<noteq> []" using Some by auto
  show ?thesis
  proof (cases "finished st")
    case True
    from inv True show ?thesis
    proof (cases rule: run_inv_finishedE)
      case (failed R e v R')
      from complete_finished [OF inq True] obtain more where
        fin: "finished (complete self cb item st)" and
        tr: "trace (complete self cb item st) = trace st @ more" and
        more: "list_all is_silent more"
        by blast
      have tr': "trace (complete self cb item st) = R @ cb e v @ (R' @ more)"
        by (simp add: tr failed(1))
      from fin tr' failed(2) _ failed(4) show ?thesis
        by (rule run_inv_failedI) (simp add: failed(3) more)
    next
      case (resolved R v)
      with ne show ?thesis by simp
    qed
  next
    case False
    note nfin = False
    note sil = run_inv_silent [OF inv False]
    show ?thesis
    proof (cases "truthy err")
      case True
      have c: "complete self cb item st =
          st\<lparr>inflight := AList.delete item (inflight st), finished := True,
             trace := (trace st @ [?done]) @ cb err (values st)\<rparr>"
        using False by (simp add: complete_error [OF inq ex True])
      have "finished (complete self cb item st)" by (simp add: c)
      moreover have "trace (complete self cb item st) =
          (trace st @ [?done]) @ cb err (values st) @ []"
        by (simp add: c)
      moreover have "list_all is_silent (trace st @ [?done])" using sil by simp
      moreover have "list_all is_silent []" by simp
      ultimately show ?thesis using True by (rule run_inv_failedI)
    next
      case nerr: False
      show ?thesis
      proof (cases val)
        case None
        note c = complete_throw [OF inq ex [unfolded None] nerr]
        show ?thesis
          unfolding c using False sil by (intro run_inv_stuckI) simp_all
      next
        case (Some row)
        note ex' = ex [unfolded Some]
        let ?done = "Done item err (Some row)"
        let ?st2 = "complete self cb item st"
        have c: "?st2 =
            st\<lparr>inflight := AList.delete item (inflight st), trace := trace st @ [?done],
               values := AList.update item (pk_answer self item q) (values st)\<rparr>"
          by (rule complete_answer [OF inq ex' nerr])
        have f2: "finished ?st2 = finished st" and t2: "todo ?st2 = todo st"
          and s2: "stuck ?st2 = stuck st"
          and i2: "inflight ?st2 = AList.delete item (inflight st)"
          and tr2: "trace ?st2 = trace st @ [?done]"
          and v2: "values ?st2 = AList.update item (pk_answer self item q) (values st)"
          by (simp_all add: c)
        show ?thesis
        proof (cases "stuck st")
          case True
          show ?thesis
          proof (rule run_inv_stuckI)
            show "\<not> finished ?st2" using False by (simp add: f2)
            show "stuck ?st2" using True by (simp add: s2)
            show "list_all is_silent (trace ?st2)" using sil by (simp add: tr2)
          qed
        next
          case ns: False
          from inv nfin ns show ?thesis
          proof (cases rule: run_inv_pendingE)
            case (1 processed)
            have q: "asked self mods meta item = Some q"
              using inq 1(5) [of item q]
              by (auto dest: map_of_SomeD)
            have good: "succeeds self item q"
              using ex' nerr by (simp add: succeeds_def)
            have inf: "i \<in> fst ` set (inflight st) \<Longrightarrow> i \<noteq> item \<Longrightarrow>
                i \<in> fst ` set (AList.delete item (inflight st))" for i
              by (simp add: keys_delete)
            show ?thesis
            proof (rule run_inv_pendingI [where processed = processed])
              show "\<not> finished ?st2" using False by (simp add: f2)
              show "ks = processed @ todo ?st2" using 1(1) by (simp only: t2)
              show "list_all is_resolution (trace ?st2)" using 1(2) by (simp add: tr2)
            next
              fix i
              assume "i \<in> set processed"
              then show "belongsTo_query self mods meta i \<noteq> Throw" by (rule 1(3))
            next
              fix i q'
              assume i: "i \<in> set processed" "asked self mods meta i = Some q'"
              note old = 1(4) [OF i]
              show "Query i (fst q') (snd q') \<in> set (trace ?st2) \<and>
                (i \<in> fst ` set (inflight ?st2) \<or>
                 Done i (fst (exec self i (fst q') (snd q')))
                   (snd (exec self i (fst q') (snd q'))) \<in> set (trace ?st2) \<and>
                 succeeds self i q' \<and> js_get (values ?st2) i = pk_answer self i q')"
              proof (cases "i = item")
                case True
                with i q have "q' = q" by simp
                with True old good ex' show ?thesis
                  unfolding tr2 i2 v2 by (simp add: js_get_def update_conv')
              next
                case False
                have v: "js_get (AList.update item (pk_answer self item q) (values st)) i =
                    js_get (values st) i"
                  using False by (simp add: js_get_def update_conv')
                from old have qy: "Query i (fst q') (snd q') \<in> set (trace st @ [?done])"
                  by simp
                from old consider (a) "i \<in> fst ` set (inflight st)"
                  | (b) "Done i (fst (exec self i (fst q') (snd q')))
                      (snd (exec self i (fst q') (snd q'))) \<in> set (trace st)"
                    "succeeds self i q'" "js_get (values st) i = pk_answer self i q'"
                  by blast
                then show ?thesis
                proof cases
                  case a
                  from inf [OF a False] qy show ?thesis unfolding tr2 i2 v2 by blast
                next
                  case b
                  from b(1) have "Done i (fst (exec self i (fst q') (snd q')))
                      (snd (exec self i (fst q') (snd q'))) \<in> set (trace st @ [?done])"
                    by simp
                  with b(2,3) qy v show ?thesis unfolding tr2 i2 v2 by simp
                qed
              qed
            next
              fix i q'
              assume "(i, q') \<in> set (inflight ?st2)"
              then have "(i, q') \<in> set (inflight st)" by (auto simp: i2 AList.delete_eq)
              then show "asked self mods meta i = Some q'" by (rule 1(5))
            qed
          qed
        qed
      qed
    qed
  qed
qed

lemma run_inv_async_each:
  "run_inv self mods cb meta ks st \<Longrightarrow>
   run_inv self mods cb meta ks (async_each self mods cb meta acts st)"
proof (induction acts arbitrary: st)
  case Nil
  then show ?case by simp
next
  case (Cons act acts)
  show ?case
  proof (cases act)
    case Dispatch
    with Cons show ?thesis by (simp add: run_inv_dispatch run_inv_settle)
  next
    case (Complete item)
    with Cons show ?thesis by (simp add: run_inv_complete run_inv_settle)
  qed
qed

lemma run_inv_initial:
  "run_inv self mods cb meta ks
     \<lparr>todo = ks, inflight = [], finished = False, stuck = False, values = v0, trace = []\<rparr>"
  by (rule run_inv_pendingI [where processed = "[]"]) simp_all

subsection \<open>The defaults\<close>

lemma create_array:
  assumes "cell_at h a = Some (CArray xs)"
  shows "create self h (HRef a) cb meta acts =
           (h, [if is_function cb then CreateEach (filter htruthy xs) cb meta
                else DeferredEach (filter htruthy xs)])"
  using assms
  by (simp add: create_def plain_at_def object_at_def array_at_def Let_def)

lemma length_write_prop: "length (write_prop h a key v) = length h"
  by (simp add: write_prop_def split: option.splits)

lemma cell_at_write_prop_other: "x \<noteq> a \<Longrightarrow> cell_at (write_prop h a key v) x = cell_at h x"
  by (simp add: write_prop_def cell_at_def split: option.splits)

lemma object_at_write_prop:
  "object_at h a = Some es \<Longrightarrow>
   object_at (write_prop h a key v) a = Some (AList.update key v es)"
  by (auto simp: write_prop_def object_at_def cell_at_def split: option.splits if_splits)

lemma take_cloneWith: "take (length h) (fst (cloneWith h v)) = h"
  by (auto simp: cloneWith_def split: option.splits hval.splits)

lemma default_result_take:
  "quiet_default (Some d) \<Longrightarrow> take (length h) (fst (default_result h a d)) = h"
  by (cases d) (simp_all add: default_result_def quiet_default_def take_cloneWith)

lemma take_length_le:
  assumes "take (length h) h' = h"
  shows "length h \<le> length h'"
proof -
  have "length (take (length h) h') = length h" by (simp only: assms)
  then show ?thesis by simp
qed

lemma take_cell_at:
  assumes "take (length h) h' = h" "x < length h"
  shows "cell_at h' x = cell_at h x"
proof -
  from assms(1) have "length h \<le> length h'" by (rule take_length_le)
  moreover have "h' ! x = take (length h) h' ! x" using assms(2) by simp
  ultimately show ?thesis using assms by (simp add: cell_at_def)
qed

lemma take_object_at:
  assumes "take (length h) h' = h" "object_at h a = Some es"
  shows "object_at h' a = Some es"
proof -
  from assms(2) have "a < length h" by (auto simp: object_at_def cell_at_def split: if_splits)
  with assms(1) have "cell_at h' a = cell_at h a" by (rule take_cell_at)
  with assms(2) show ?thesis by (simp add: object_at_def)
qed

lemma set_default_eq:
  assumes "object_at h a = Some es"
  shows "set_default a (key, dflt) h =
     (if default_missing es key then
        (case dflt of None \<Rightarrow> h
         | Some d \<Rightarrow> write_prop (fst (default_result h a d)) a key (snd (default_result h a d)))
      else h)"
  using assms
  by (auto simp: set_default_def default_result_def split: option.splits default_value.splits prod.splits)

lemma length_default_result:
  "quiet_default (Some d) \<Longrightarrow> length h \<le> length (fst (default_result h a d))"
  by (rule take_length_le) (rule default_result_take)

lemma cell_at_default_result:
  "quiet_default (Some d) \<Longrightarrow> x < length h \<Longrightarrow>
   cell_at (fst (default_result h a d)) x = cell_at h x"
  by (rule take_cell_at) (simp_all add: default_result_take)

lemma object_at_default_result:
  "quiet_default (Some d) \<Longrightarrow> object_at h a = Some es \<Longrightarrow>
   object_at (fst (default_result h b d)) a = Some es"
  by (rule take_object_at) (simp_all add: default_result_take)

lemma set_default_object:
  assumes "object_at h a = Some es" "quiet_default dflt"
  shows "\<exists>es'. object_at (set_default a (key, dflt) h) a = Some es' \<and>
           (\<forall>k. k \<noteq> key \<longrightarrow> map_of es' k = map_of es k)"
proof (cases "default_missing es key \<and> dflt \<noteq> None")
  case False
  with assms show ?thesis by (auto simp: set_default_eq)
next
  case True
  then obtain d where d: "dflt = Some d" by auto
  let ?h1 = "fst (default_result h a d)"
  have "object_at ?h1 a = Some es"
    using assms d by (simp add: object_at_default_result)
  then have "object_at (write_prop ?h1 a key (snd (default_result h a d))) a =
      Some (AList.update key (snd (default_result h a d)) es)"
    by (rule object_at_write_prop)
  with True d assms show ?thesis by (simp add: set_default_eq update_conv')
qed

lemma set_default_length:
  assumes "quiet_default (snd kd)"
  shows "length h \<le> length (set_default a kd h)"
proof (cases kd)
  case (Pair key dflt)
  show ?thesis
  proof (cases "object_at h a")
    case None
    with Pair show ?thesis by (simp add: set_default_def)
  next
    case (Some es)
    with Pair assms show ?thesis
      by (auto simp: set_default_eq length_write_prop length_default_result split: option.splits)
  qed
qed

lemma set_default_frame:
  assumes "x \<noteq> a" "x < length h" "quiet_default (snd kd)"
  shows "cell_at (set_default a kd h) x = cell_at h x"
proof (cases kd)
  case (Pair key dflt)
  show ?thesis
  proof (cases "object_at h a")
    case None
    with Pair show ?thesis by (simp add: set_default_def)
  next
    case (Some es)
    with Pair assms show ?thesis
      by (auto simp: set_default_eq cell_at_write_prop_other cell_at_default_result
          split: option.splits)
  qed
qed

lemma set_defaults_length:
  "\<forall>kd\<in>set decls. quiet_default (snd kd) \<Longrightarrow> length h \<le> length (set_defaults decls a h)"
  unfolding set_defaults_def
proof (induction decls arbitrary: h)
  case Nil
  show ?case by simp
next
  case (Cons kd decls)
  have "length h \<le> length (set_default a kd h)"
    using Cons.prems by (simp add: set_default_length)
  also have "\<dots> \<le> length (fold (set_default a) decls (set_default a kd h))"
    using Cons.prems by (intro Cons.IH) simp
  finally show ?case by simp
qed

lemma set_defaults_frame:
  "\<forall>kd\<in>set decls. quiet_default (snd kd) \<Longrightarrow> x \<noteq> a \<Longrightarrow> x < length h \<Longrightarrow>
   cell_at (set_defaults decls a h) x = cell_at h x"
  unfolding set_defaults_def
proof (induction decls arbitrary: h)
  case Nil
  show ?case by simp
next
  case (Cons kd decls)
  from Cons.prems(1) have q: "quiet_default (snd kd)" "\<forall>kd\<in>set decls. quiet_default (snd kd)"
    by simp_all
  have "x < length (set_default a kd h)"
    using Cons.prems(3) set_default_length [OF q(1), of h a] by simp
  with Cons.IH [OF q(2) Cons.prems(2)] have
    "cell_at (fold (set_default a) decls (set_default a kd h)) x = cell_at (set_default a kd h) x"
    by simp
  with Cons.prems q show ?case by (simp add: set_default_frame)
qed

lemma set_defaults_object:
  "\<forall>kd\<in>set decls. quiet_default (snd kd) \<Longrightarrow> object_at h a = Some es \<Longrightarrow>
   \<exists>es'. object_at (set_defaults decls a h) a = Some es' \<and>
     (\<forall>k. k \<notin> fst ` set decls \<longrightarrow> map_of es' k = map_of es k)"
  unfolding set_defaults_def
proof (induction decls arbitrary: h es)
  case Nil
  then show ?case by simp
next
  case (Cons kd decls)
  obtain key dflt where kd: "kd = (key, dflt)" by (cases kd)
  from Cons.prems(1) kd have q: "quiet_default dflt" "\<forall>kd\<in>set decls. quiet_default (snd kd)"
    by simp_all
  from set_default_object [OF Cons.prems(2) q(1), of key] obtain es1 where
    o1: "object_at (set_default a kd h) a = Some es1" and
    same1: "\<And>k. k \<noteq> key \<Longrightarrow> map_of es1 k = map_of es k"
    using kd by auto
  from Cons.IH [OF q(2) o1] obtain es' where
    o': "object_at (fold (set_default a) decls (set_default a kd h)) a = Some es'" and
    same': "\<And>k. k \<notin> fst ` set decls \<Longrightarrow> map_of es' k = map_of es1 k"
    by auto
  have "map_of es' k = map_of es k" if "k \<notin> fst ` set (kd # decls)" for k
    using that same' [of k] same1 [of k] kd by auto
  with o' show ?case by auto
qed

lemma default_missing_cong:
  "map_of es1 key = map_of es key \<Longrightarrow> default_missing es1 key = default_missing es key"
  by (simp add: default_missing_def hasOwnProperty_def hget_def)

lemma set_defaults_append:
  "set_defaults (pre @ kd # post) a h = set_defaults post a (set_default a kd (set_defaults pre a h))"
  by (simp add: set_defaults_def)

lemma defaults_at_key:
  assumes dist: "distinct (map fst decls)"
    and quiet: "\<forall>kd\<in>set decls. quiet_default (snd kd)"
    and split: "decls = pre @ (key, Some d) # post"
    and obj: "object_at h a = Some input"
    and miss: "default_missing input key"
  shows "\<exists>es'. object_at (set_defaults decls a h) a = Some es' \<and>
     map_of es' key = Some (snd (default_result (set_defaults pre a h) a d)) \<and>
     (\<forall>x. x \<noteq> a \<longrightarrow> x < length (fst (default_result (set_defaults pre a h) a d)) \<longrightarrow>
        cell_at (set_defaults decls a h) x =
        cell_at (fst (default_result (set_defaults pre a h) a d)) x)"
proof -
  let ?h0 = "set_defaults pre a h"
  let ?r = "default_result ?h0 a d"
  let ?h1 = "set_default a (key, Some d) ?h0"
  from quiet have qpre: "\<forall>kd\<in>set pre. quiet_default (snd kd)"
    and qd: "quiet_default (Some d)"
    and qpost: "\<forall>kd\<in>set post. quiet_default (snd kd)"
    by (simp_all add: split)
  from dist have "distinct (map fst (pre @ (key, Some d) # post))" by (simp only: split)
  then have kpre: "key \<notin> fst ` set pre" and kpost: "key \<notin> fst ` set post"
    by auto
  from set_defaults_object [OF qpre obj] kpre obtain es0 where
    o0: "object_at ?h0 a = Some es0" and k0: "map_of es0 key = map_of input key"
    by auto
  from miss have miss0: "default_missing es0 key"
    by (simp only: default_missing_cong [OF k0])
  have h1: "?h1 = write_prop (fst ?r) a key (snd ?r)"
    using o0 miss0 by (simp add: set_default_eq)
  have "object_at (fst ?r) a = Some es0" using qd o0 by (rule object_at_default_result)
  then have o1: "object_at ?h1 a = Some (AList.update key (snd ?r) es0)"
    unfolding h1 by (rule object_at_write_prop)
  from set_defaults_object [OF qpost o1] kpost obtain es' where
    o': "object_at (set_defaults post a ?h1) a = Some es'" and
    k': "map_of es' key = map_of (AList.update key (snd ?r) es0) key"
    by auto
  have whole: "set_defaults decls a h = set_defaults post a ?h1"
    unfolding split by (rule set_defaults_append)
  have frame: "cell_at (set_defaults decls a h) x = cell_at (fst ?r) x"
    if "x \<noteq> a" "x < length (fst ?r)" for x
  proof -
    have "x < length ?h1" using that(2) by (simp add: h1 length_write_prop)
    with qpost that(1) have "cell_at (set_defaults post a ?h1) x = cell_at ?h1 x"
      by (rule set_defaults_frame)
    also have "\<dots> = cell_at (fst ?r) x"
      using that(1) by (simp add: h1 cell_at_write_prop_other)
    finally show ?thesis by (simp add: whole)
  qed
  have k2: "map_of es' key = Some (snd ?r)" using k' by (simp add: update_conv')
  have o2: "object_at (set_defaults decls a h) a = Some es'" using o' by (simp only: whole)
  show ?thesis
    using o2 k2 frame by blast
qed

text \<open>
  Claim C8, amended.  Let the declarations have pairwise distinct names, and let every default
  that is a function change no cell that exists when it is called.  Let \<open>key\<close> be declared
  with the default \<open>d\<close>, and let it be missing from the input at \<open>a\<close> or \<^verbatim>\<open>undefined\<close> in it.
  After the defaults loop the input is still an object, and under \<open>key\<close> it has:
  \<^item> for a function, what the function returns when it is called with the input as \<^verbatim>\<open>this\<close>, in
    the store as the declarations before \<open>key\<close> have left it;
  \<^item> for a literal that is a \<^verbatim>\<open>Buffer\<close>, the buffer itself;
  \<^item> for a literal that is an object, an array or a date, a new cell \<open>n\<close> with the content \<open>c\<close>
    of the literal's cell: the same values and the same addresses, so what the literal holds
    is shared, not copied; the literal's own cell keeps its content;
  \<^item> for any other literal (a primitive), the literal.
\<close>

theorem defaults_applied:
  assumes "distinct (map fst decls)"
    and "\<forall>kd\<in>set decls. quiet_default (snd kd)"
    and "decls = pre @ (key, Some d) # post"
    and "object_at h a = Some input"
    and "default_missing input key"
  shows "\<exists>es'. object_at (set_defaults decls a h) a = Some es' \<and>
     (case d of
        Factory f \<Rightarrow> map_of es' key = Some (snd (f (set_defaults pre a h) a))
      | Literal v \<Rightarrow>
          (case v of
             HRef b \<Rightarrow>
               (case cell_at (set_defaults pre a h) b of
                  None \<Rightarrow> map_of es' key = Some v
                | Some (CBuffer bytes) \<Rightarrow> map_of es' key = Some v
                | Some c \<Rightarrow>
                    (\<exists>n. map_of es' key = Some (HRef n) \<and>
                       cell_at (set_defaults pre a h) n = None \<and>
                       cell_at (set_defaults decls a h) n = Some c \<and>
                       (b \<noteq> a \<longrightarrow> cell_at (set_defaults decls a h) b = Some c)))
           | _ \<Rightarrow> map_of es' key = Some v))"
proof -
  let ?h0 = "set_defaults pre a h"
  let ?h' = "set_defaults decls a h"
  from defaults_at_key [OF assms] obtain es' where
    o': "object_at ?h' a = Some es'" and
    k': "map_of es' key = Some (snd (default_result ?h0 a d))" and
    frame: "\<And>x. x \<noteq> a \<Longrightarrow> x < length (fst (default_result ?h0 a d)) \<Longrightarrow>
        cell_at ?h' x = cell_at (fst (default_result ?h0 a d)) x"
    by blast
  from assms(2,3) have qpre: "\<forall>kd\<in>set pre. quiet_default (snd kd)" by simp
  from set_defaults_object [OF qpre assms(4)] have "a < length ?h0"
    by (auto simp: object_at_def cell_at_def split: if_splits)
  have fresh: "map_of es' key = Some (HRef (length ?h0)) \<and> cell_at ?h0 (length ?h0) = None \<and>
      cell_at ?h' (length ?h0) = Some c \<and> (b \<noteq> a \<longrightarrow> cell_at ?h' b = Some c)"
    if d: "d = Literal (HRef b)" and c: "cell_at ?h0 b = Some c" and nb: "\<forall>bytes. c \<noteq> CBuffer bytes"
    for b c
  proof -
    have r: "default_result ?h0 a d = (?h0 @ [c], HRef (length ?h0))"
      using d c nb by (cases c) (simp_all add: default_result_def cloneWith_def dealWithBuffers_def)
    have "cell_at ?h' (length ?h0) = cell_at (?h0 @ [c]) (length ?h0)"
      using frame [of "length ?h0"] \<open>a < length ?h0\<close> by (simp add: r)
    moreover have "b < length ?h0" using c by (auto simp: cell_at_def split: if_splits)
    then have "b \<noteq> a \<Longrightarrow> cell_at ?h' b = cell_at (?h0 @ [c]) b"
      using frame [of b] by (simp add: r)
    ultimately show ?thesis
      using k' c \<open>b < length ?h0\<close> by (simp add: r cell_at_def nth_append)
  qed
  have "case d of
        Factory f \<Rightarrow> map_of es' key = Some (snd (f ?h0 a))
      | Literal v \<Rightarrow>
          (case v of
             HRef b \<Rightarrow>
               (case cell_at ?h0 b of
                  None \<Rightarrow> map_of es' key = Some v
                | Some (CBuffer bytes) \<Rightarrow> map_of es' key = Some v
                | Some c \<Rightarrow>
                    (\<exists>n. map_of es' key = Some (HRef n) \<and> cell_at ?h0 n = None \<and>
                       cell_at ?h' n = Some c \<and> (b \<noteq> a \<longrightarrow> cell_at ?h' b = Some c)))
           | _ \<Rightarrow> map_of es' key = Some v)"
  proof (cases d)
    case (Factory f)
    with k' show ?thesis by (simp add: default_result_def)
  next
    case (Literal v)
    show ?thesis
    proof (cases v)
      case (HRef b)
      show ?thesis
      proof (cases "cell_at ?h0 b")
        case None
        with Literal HRef k' show ?thesis
          by (simp add: default_result_def cloneWith_def dealWithBuffers_def)
      next
        case (Some c)
        show ?thesis
        proof (cases "\<exists>bytes. c = CBuffer bytes")
          case True
          with Literal HRef Some k' show ?thesis
            by (auto simp: default_result_def cloneWith_def dealWithBuffers_def)
        next
          case False
          then have "\<forall>bytes. c \<noteq> CBuffer bytes" by simp
          from fresh [OF _ Some this] Literal HRef Some False show ?thesis
            by (cases c) auto
        qed
      qed
    qed (use Literal k' in \<open>simp_all add: default_result_def cloneWith_def dealWithBuffers_def\<close>)
  qed
  with o' show ?thesis by blast
qed

lemma create_single:
  assumes "single_record h arg0 arg1 arg2 a"
  shows "create self h arg0 arg1 arg2 acts =
     (case processValues self h a of (h1, vals1, assoc) \<Rightarrow>
        (h1, createBelongsTo self (vals1, assoc) (after_belongsTo self assoc arg2) HUndefined acts))"
proof -
  from assms obtain input where obj: "object_at h a = Some input"
    by (auto simp: single_record_def)
  then have arr: "array_at h (HRef a) = None" and plain: "plain_at h (HRef a)"
    by (auto simp: array_at_def plain_at_def object_at_def split: option.splits cell.splits)
  have fn: "\<not> plain_at h v \<and> array_at h v = None" if "is_function v" for v
    using that by (cases v) (simp_all add: plain_at_def array_at_def)
  from assms consider (direct) "arg0 = HRef a" "is_function arg1"
    | (deferred) "plain_at h arg0" "arg1 = HRef a" "is_function arg2"
    by (auto simp: single_record_def)
  then show ?thesis
  proof cases
    case direct
    with obj arr fn [of arg1] show ?thesis
      by (simp add: create_def Let_def)
  next
    case deferred
    with obj arr plain show ?thesis
      by (simp add: create_def Let_def)
  qed
qed

lemma create_not_single:
  assumes "\<forall>a. \<not> single_record h arg0 arg1 arg2 a"
  shows "\<exists>e. snd (create self h arg0 arg1 arg2 acts) = [e] \<and> is_handover e"
proof -
  let ?deferred = "plain_at h arg0 \<and> (plain_at h arg1 \<or> array_at h arg1 \<noteq> None)"
  let ?vals = "if ?deferred then arg1 else arg0"
  let ?cb = "if ?deferred then arg2 else arg1"
  show ?thesis
  proof (cases "array_at h ?vals")
    case (Some xs)
    then show ?thesis by (simp add: create_def Let_def)
  next
    case None
    show ?thesis
    proof (cases "is_function ?cb")
      case False
      with None show ?thesis by (simp add: create_def Let_def)
    next
      case True
      have "object_at h a = None" if "?vals = HRef a" for a
      proof (rule ccontr)
        assume o: "object_at h a \<noteq> None"
        then have p: "plain_at h (HRef a)" by (simp add: plain_at_def)
        show False
        proof (cases ?deferred)
          case d: True
          from that have v: "arg1 = HRef a" by (simp only: d if_True simp_thms)
          from True have "is_function arg2" by (simp only: d if_True simp_thms)
          with d v o have "single_record h arg0 arg1 arg2 a"
            by (simp add: single_record_def)
          with assms show False by blast
        next
          case d: False
          from that have v: "arg0 = HRef a" by (simp only: d if_False)
          from True have "is_function arg1" by (simp only: d if_False)
          with v o have "single_record h arg0 arg1 arg2 a"
            by (simp add: single_record_def)
          with assms show False by blast
        qed
      qed
      with None True show ?thesis
        by (cases ?vals) (simp_all add: create_def Let_def)
    qed
  qed
qed


subsection \<open>The course of a call\<close>

lemma createBelongsTo_shape:
  "list_all is_silent (createBelongsTo self (vals, assoc) cb meta acts) \<or>
   (\<exists>R e v R'. createBelongsTo self (vals, assoc) cb meta acts = R @ cb e v @ R' \<and>
      list_all is_silent R \<and> list_all is_silent R' \<and> truthy e) \<or>
   (\<exists>R v. createBelongsTo self (vals, assoc) cb meta acts = R @ cb JNull v \<and>
      resolved self (models assoc) meta (map fst (models assoc)) R v)"
proof -
  let ?ks = "map fst (models assoc)"
  let ?st = "async_each self (models assoc) cb meta acts
       (settle cb \<lparr>todo = ?ks, inflight = [], finished = False, stuck = False,
          values = vals, trace = []\<rparr>)"
  have tr: "createBelongsTo self (vals, assoc) cb meta acts = trace ?st"
    by (simp add: createBelongsTo_def)
  have inv: "run_inv self (models assoc) cb meta ?ks ?st"
    by (rule run_inv_async_each, rule run_inv_settle, rule run_inv_initial)
  show ?thesis
  proof (cases "finished ?st")
    case False
    from inv False have "list_all is_silent (trace ?st)"
      by (rule run_inv_silent)
    then show ?thesis unfolding tr by (rule disjI1)
  next
    case True
    from inv True show ?thesis
    proof (cases rule: run_inv_finishedE)
      case (failed R e v R')
      then show ?thesis unfolding tr by blast
    next
      case (resolved R v)
      then show ?thesis unfolding tr by blast
    qed
  qed
qed

lemma create_shape:
  assumes "single_record h arg0 arg1 meta a"
  shows "list_all is_silent (snd (create self h arg0 arg1 meta acts)) \<or>
   (\<exists>R e R'. snd (create self h arg0 arg1 meta acts) = R @ Callback e JUndefined # R' \<and>
      list_all is_silent R \<and> list_all is_silent R' \<and> truthy e) \<or>
   (\<exists>R v. snd (create self h arg0 arg1 meta acts) =
        R @ beforeCallbacks self v
              (after_before self (snd (snd (processValues self h a))) meta) \<and>
      resolved self (models (snd (snd (processValues self h a)))) HUndefined
        (map fst (models (snd (snd (processValues self h a))))) R v)"
proof -
  obtain h1 vals1 assoc where pv: "processValues self h a = (h1, vals1, assoc)"
    by (cases "processValues self h a") auto
  let ?cb = "after_belongsTo self assoc meta"
  have tr: "snd (create self h arg0 arg1 meta acts) =
      createBelongsTo self (vals1, assoc) ?cb HUndefined acts"
    by (simp add: create_single [OF assms] pv)
  have err: "?cb e v = [Callback e JUndefined]" if "truthy e" for e v
    using that by (simp add: after_belongsTo_def)
  have ok: "?cb JNull v = beforeCallbacks self v (after_before self assoc meta)" for v
    by (simp add: after_belongsTo_def)
  from createBelongsTo_shape [of self vals1 assoc ?cb HUndefined acts]
  show ?thesis
  proof (elim disjE exE conjE)
    assume "list_all is_silent (createBelongsTo self (vals1, assoc) ?cb HUndefined acts)"
    then show ?thesis unfolding tr by (rule disjI1)
  next
    fix R e v R'
    assume "createBelongsTo self (vals1, assoc) ?cb HUndefined acts = R @ ?cb e v @ R'"
      "list_all is_silent R" "list_all is_silent R'" "truthy e"
    then show ?thesis unfolding tr by (auto simp: err)
  next
    fix R v
    assume "createBelongsTo self (vals1, assoc) ?cb HUndefined acts = R @ ?cb JNull v"
      "resolved self (models assoc) HUndefined (map fst (models assoc)) R v"
    then have "snd (create self h arg0 arg1 meta acts) =
        R @ beforeCallbacks self v (after_before self (snd (snd (processValues self h a))) meta) \<and>
      resolved self (models (snd (snd (processValues self h a)))) HUndefined
        (map fst (models (snd (snd (processValues self h a))))) R v"
      unfolding tr pv by (simp add: ok)
    then show ?thesis by blast
  qed
qed

lemma createValues_write:
  assumes "e \<in> set (createValues self vo meta)" "is_write e"
  shows "\<exists>rest. createValues self vo meta = e # rest \<and> list_all (\<lambda>x. \<not> is_write x) rest"
  using assms
  by (auto simp: createValues_def after_create_def Let_def
      split: sum.splits prod.splits if_splits)

lemma silent_no_write: "list_all is_silent R \<Longrightarrow> e \<in> set R \<Longrightarrow> \<not> is_write e"
  by (cases e) (auto simp: list_all_iff)

lemma beforeCallbacks_eq:
  "beforeCallbacks self v (after_before self assoc meta) =
     Validate v #
       (if truthy (fst (validate self v)) then [Callback (fst (validate self v)) JUndefined]
        else BeforeCreate (snd (validate self v)) #
          (if truthy (fst (beforeCreate self (snd (validate self v))))
           then [Callback (fst (beforeCreate self (snd (validate self v)))) JUndefined]
           else createValues self (snd (beforeCreate self (snd (validate self v))), assoc) meta))"
  by (simp add: beforeCallbacks_def after_before_def split: prod.splits)

lemma hooks_write:
  assumes R: "list_all is_silent R"
    and tr: "tr = R @ beforeCallbacks self v (after_before self assoc meta)"
    and e: "e \<in> set tr" "is_write e"
  shows "\<exists>rest. tr = R @ Validate v # BeforeCreate (snd (validate self v)) # e # rest \<and>
     \<not> truthy (fst (validate self v)) \<and>
     \<not> truthy (fst (beforeCreate self (snd (validate self v)))) \<and>
     list_all (\<lambda>x. \<not> is_write x) rest"
proof -
  let ?v1 = "snd (validate self v)"
  let ?v2 = "snd (beforeCreate self ?v1)"
  from R e have notR: "e \<notin> set R" by (auto dest: silent_no_write)
  show ?thesis
  proof (cases "truthy (fst (validate self v))")
    case True
    with tr e notR show ?thesis by (auto simp: beforeCallbacks_eq)
  next
    case v: False
    show ?thesis
    proof (cases "truthy (fst (beforeCreate self ?v1))")
      case True
      with v tr e notR show ?thesis by (auto simp: beforeCallbacks_eq)
    next
      case b: False
      from v b tr have tr': "tr = R @ Validate v # BeforeCreate ?v1 #
          createValues self (?v2, assoc) meta"
        by (simp add: beforeCallbacks_eq)
      with e notR have "e \<in> set (createValues self (?v2, assoc) meta)" by auto
      from createValues_write [OF this e(2)] obtain rest where
        "createValues self (?v2, assoc) meta = e # rest" "list_all (\<lambda>x. \<not> is_write x) rest"
        by blast
      with tr' v b show ?thesis by simp
    qed
  qed
qed

lemma create_write:
  assumes e: "e \<in> set (snd (create self h arg0 arg1 arg2 acts))" "is_write e"
  shows "\<exists>R v rest. snd (create self h arg0 arg1 arg2 acts) =
        R @ Validate v # BeforeCreate (snd (validate self v)) # e # rest \<and>
     list_all is_resolution R \<and>
     \<not> truthy (fst (validate self v)) \<and>
     \<not> truthy (fst (beforeCreate self (snd (validate self v)))) \<and>
     list_all (\<lambda>x. \<not> is_write x) rest"
proof (cases "\<exists>a. single_record h arg0 arg1 arg2 a")
  case False
  then have "\<forall>a. \<not> single_record h arg0 arg1 arg2 a" by simp
  from create_not_single [OF this, of self acts] obtain e' where
    "snd (create self h arg0 arg1 arg2 acts) = [e']" "is_handover e'"
    by blast
  with e have "is_handover e" by simp
  with e(2) show ?thesis by (cases e) simp_all
next
  case True
  then obtain a where a: "single_record h arg0 arg1 arg2 a" ..
  let ?tr = "snd (create self h arg0 arg1 arg2 acts)"
  let ?assoc = "snd (snd (processValues self h a))"
  from create_shape [OF a, of self acts] show ?thesis
  proof (elim disjE exE conjE)
    assume "list_all is_silent ?tr"
    with e show ?thesis by (auto dest: silent_no_write)
  next
    fix R e' R'
    assume "?tr = R @ Callback e' JUndefined # R'" "list_all is_silent R"
      "list_all is_silent R'"
    with e show ?thesis by (auto dest: silent_no_write)
  next
    fix R v
    assume tr: "?tr = R @ beforeCallbacks self v (after_before self ?assoc arg2)"
      and res: "resolved self (models ?assoc) HUndefined (map fst (models ?assoc)) R v"
    from res have R: "list_all is_resolution R" by (simp add: resolved_def)
    from hooks_write [OF list_resolution_silent [OF R] tr e] R show ?thesis by blast
  qed
qed

text \<open>
  Claim C2.  For every call of \<^verbatim>\<open>create\<close>, whatever its arguments and the order in which the
  queries to sibling collections are sent and answer:
  \<^item> a call of the adapter's \<^verbatim>\<open>create\<close> comes directly after the before-create callback, which
    comes directly after the validation; both have reported no error; before the validation
    there are only queries to sibling collections and their answers; and the adapter is not
    called a second time.  So if the validation or the before-create callback reports an
    error, the adapter is not called.
  \<^item> a call that creates one record has one of three courses.  Either the caller's callback
    has not been called, and there are only queries, answers and exceptions.  Or a query has
    answered with an error, the caller's callback has been called with it, and neither the
    validation nor the before-create callback runs.  Or the resolution is complete (every
    query has been sent and has answered with a record and without an error), the validation
    runs next, then, if it reports an error, the caller's callback is called with the error and
    nothing follows; otherwise the before-create callback runs, and if it reports an error
    the caller's callback is called with the error and nothing follows; otherwise
    \<^verbatim>\<open>createValues\<close> runs.
  \<^item> any other call does one thing: it hands an array over to \<^verbatim>\<open>createEach\<close>, or returns a
    deferred object, or leaves the model; it runs no callback and calls no adapter.
\<close>

theorem create_hooks_order:
  "let tr = snd (create self h arg0 arg1 arg2 acts)
   in (\<forall>e. e \<in> set tr \<and> is_write e \<longrightarrow>
         (\<exists>R v rest. tr = R @ Validate v # BeforeCreate (snd (validate self v)) # e # rest \<and>
            list_all is_resolution R \<and>
            \<not> truthy (fst (validate self v)) \<and>
            \<not> truthy (fst (beforeCreate self (snd (validate self v)))) \<and>
            list_all (\<lambda>x. \<not> is_write x) rest)) \<and>
      (\<forall>a. single_record h arg0 arg1 arg2 a \<longrightarrow>
         (let assoc = snd (snd (processValues self h a))
          in list_all is_silent tr \<or>
             (\<exists>R e R'. tr = R @ Callback e JUndefined # R' \<and> list_all is_silent R \<and>
                list_all is_silent R' \<and> truthy e) \<or>
             (\<exists>R v. resolved self (models assoc) HUndefined (map fst (models assoc)) R v \<and>
                tr = R @ Validate v #
                  (if truthy (fst (validate self v))
                   then [Callback (fst (validate self v)) JUndefined]
                   else BeforeCreate (snd (validate self v)) #
                     (if truthy (fst (beforeCreate self (snd (validate self v))))
                      then [Callback (fst (beforeCreate self (snd (validate self v)))) JUndefined]
                      else createValues self
                             (snd (beforeCreate self (snd (validate self v))), assoc) arg2))))) \<and>
      ((\<forall>a. \<not> single_record h arg0 arg1 arg2 a) \<longrightarrow> (\<exists>e. tr = [e] \<and> is_handover e))"
proof -
  let ?tr = "snd (create self h arg0 arg1 arg2 acts)"
  have A: "list_all is_silent ?tr \<or>
         (\<exists>R e R'. ?tr = R @ Callback e JUndefined # R' \<and> list_all is_silent R \<and>
            list_all is_silent R' \<and> truthy e) \<or>
         (\<exists>R v. resolved self (models (snd (snd (processValues self h a)))) HUndefined
                  (map fst (models (snd (snd (processValues self h a))))) R v \<and>
            ?tr = R @ Validate v #
              (if truthy (fst (validate self v))
               then [Callback (fst (validate self v)) JUndefined]
               else BeforeCreate (snd (validate self v)) #
                 (if truthy (fst (beforeCreate self (snd (validate self v))))
                  then [Callback (fst (beforeCreate self (snd (validate self v)))) JUndefined]
                  else createValues self
                         (snd (beforeCreate self (snd (validate self v))),
                          snd (snd (processValues self h a))) arg2)))"
    if "single_record h arg0 arg1 arg2 a" for a
    using create_shape [OF that, of self acts] unfolding beforeCallbacks_eq by blast
  from A create_write [of _ self h arg0 arg1 arg2 acts]
    create_not_single [of h arg0 arg1 arg2 self acts]
  show ?thesis
    unfolding Let_def by blast
qed



text \<open>
  Claim C9, amended.  Where the values of a call of \<^verbatim>\<open>create\<close> are an array (the first
  argument, or the second after a plain object), the array handed to \<^verbatim>\<open>createEach\<close>, or to
  the deferred object where there is no callback, holds the truthy entries of the array in
  their order: \<^verbatim>\<open>_.filter(values, undefined)\<close> filters by identity and removes every falsy
  entry (\<^verbatim>\<open>undefined\<close>, \<^verbatim>\<open>null\<close>, \<^verbatim>\<open>false\<close>, 0, the empty string).
\<close>

theorem create_array_filters_falsy:
  "(array_at h arg0 = Some xs \<longrightarrow>
      create self h arg0 arg1 arg2 acts =
        (h, [if is_function arg1 then CreateEach (filter htruthy xs) arg1 arg2
             else DeferredEach (filter htruthy xs)])) \<and>
   (plain_at h arg0 \<and> array_at h arg1 = Some xs \<longrightarrow>
      create self h arg0 arg1 arg2 acts =
        (h, [if is_function arg2 then CreateEach (filter htruthy xs) arg2 arg2
             else DeferredEach (filter htruthy xs)]))"
proof -
  have "\<not> plain_at h arg0" if "array_at h arg0 = Some xs"
    using that
    by (auto simp: plain_at_def array_at_def object_at_def split: hval.splits option.splits cell.splits)
  then show ?thesis by (auto simp: create_def Let_def)
qed

section \<open>Concrete instances for record creation\<close>

lemma pets_fields:
  "declarations pets = [(''name'', None), (''kind'', Some (Literal (HStr ''dog''))), (''owner'', None)]"
  "valuesParser pets = (\<lambda>h a. \<lparr>models = owner_models h a, collections = []\<rparr>)"
  "reduceAssociations pets = flat"
  "cast_run pets = (\<lambda>v. v)"
  "transformer pets = \<lparr>attributes = pet_attributes, transformations = []\<rparr>"
  "primaryKey pets = (\<lambda>m. ''id'')"
  "exec pets = user_exec"
  "validate pets = (\<lambda>v. (JNull, v))"
  "beforeCreate pets = (\<lambda>v. (JNull, v))"
  "afterCreate pets = (\<lambda>v. JNull)"
  "autoCreatedAt pets = None"
  "autoUpdatedAt pets = None"
  "cleanValues pets = (\<lambda>v. v)"
  "adapter_create pets = (\<lambda>v m. (JNull, props_of v))"
  "globalId pets = JStr ''Pet''"
  "is_collection pets = (\<lambda>m. m = ''user'')"
  by (simp_all add: pets_def)

lemma strict_fields:
  "declarations strict_pets = declarations pets"
  "valuesParser strict_pets = valuesParser pets"
  "reduceAssociations strict_pets = reduceAssociations pets"
  "cast_run strict_pets = cast_run pets"
  "transformer strict_pets = transformer pets"
  "primaryKey strict_pets = primaryKey pets"
  "exec strict_pets = exec pets"
  "validate strict_pets = validate pets"
  "beforeCreate strict_pets = (\<lambda>v. (JStr ''rejected'', v))"
  "schema strict_pets = schema pets"
  "is_collection strict_pets = is_collection pets"
  by (simp_all add: strict_pets_def)

lemma pets_model: "modelName_of pets ''owner'' = ''user''"
  by (simp add: modelName_of_def pets_def)

lemma strict_model: "modelName_of strict_pets item = modelName_of pets item"
  by (simp add: modelName_of_def strict_fields)

lemma pets_defaults:
  "set_defaults [(''name'', None), (''kind'', Some (Literal (HStr ''dog''))), (''owner'', None)]
     0 pet_heap = pet_heap_after"
  by (simp add: set_defaults_def set_default_def object_at_def cell_at_def
      default_missing_def hasOwnProperty_def hget_def cloneWith_def dealWithBuffers_def
      write_prop_def pet_heap_def pet_heap_after_def)

lemma pets_flat: "flat pet_heap_after 0 = [(''name'', JStr ''a''), (''kind'', JStr ''dog'')]"
  by (simp add: flat_def object_at_def cell_at_def pet_heap_after_def)

lemma pets_flat_owner: "flat pet_heap_after (Suc 0) = owner_payload"
  unfolding flat_def
  by (simp add: object_at_def cell_at_def pet_heap_after_def) (simp add: owner_payload_def)

lemma pets_object_after:
  "object_at pet_heap_after 0 =
     Some [(''name'', HStr ''a''), (''owner'', HRef 1), (''kind'', HStr ''dog'')]"
  by (simp add: object_at_def cell_at_def pet_heap_after_def)

lemma pets_models: "owner_models pet_heap_after 0 = [(''owner'', JObj Plain owner_payload)]"
  by (simp add: owner_models_def pets_object_after hget_def pets_flat_owner)

lemma pets_processValues:
  "processValues pets pet_heap 0 =
     (pet_heap_after, [(''name'', JStr ''a''), (''kind'', JStr ''dog'')], pet_assoc)"
  by (simp add: processValues_def Let_def pets_fields pets_defaults pets_flat pets_models
      pet_assoc_def)

lemma strict_processValues: "processValues strict_pets h a = processValues pets h a"
  by (simp add: processValues_def strict_fields)

lemma pets_query:
  "belongsTo_query pets [(''owner'', JObj Plain owner_payload)] meta ''owner'' =
     Exec (Create ''user'' owner_payload) (if htruthy meta then Some meta else None)"
  by (simp add: belongsTo_query_def pets_model pets_fields js_get_def js_read_def inherited_def
      object_prototype_def owner_payload_def)

lemma strict_query:
  "belongsTo_query strict_pets mods meta item = belongsTo_query pets mods meta item"
  by (simp add: belongsTo_query_def strict_model strict_fields Let_def
      split: jsval.splits okind.splits)

lemma pets_answer:
  "exec pets item (Create ''user'' owner_payload) m = (JNull, Some owner_answer)"
  by (simp add: pets_fields user_exec_def owner_payload_def owner_answer_def)

lemma owner_key: "js_read owner_answer ''id'' = JNum 7"
  by (simp add: owner_answer_def js_read_def)

lemma pets_createBelongsTo:
  assumes "belongsTo_query self [(''owner'', JObj Plain owner_payload)] meta ''owner'' =
      Exec (Create ''user'' owner_payload) m"
    and "exec self ''owner'' (Create ''user'' owner_payload) m = (JNull, Some owner_answer)"
    and "primaryKey self ''user'' = ''id''"
  shows "createBelongsTo self ([(''name'', JStr ''a''), (''kind'', JStr ''dog'')], pet_assoc) cb meta
     pet_run =
   [Query ''owner'' (Create ''user'' owner_payload) m,
    Done ''owner'' JNull (Some owner_answer)] @ cb JNull pet_values"
  by (simp add: createBelongsTo_def pet_assoc_def pet_run_def settle_def dispatch_def
      complete_def assms Let_def owner_key pet_values_def)

lemma pets_serialize:
  "serialize (transformer pets) (JObj Plain pet_values) JUndefined = Inr (JObj Plain pet_values)"
proof -
  have g: "governing \<lparr>attributes = pet_attributes, transformations = []\<rparr> ''name'' pa = JStr ''string''"
    "governing \<lparr>attributes = pet_attributes, transformations = []\<rparr> ''kind'' pa = JStr ''string''"
    "governing \<lparr>attributes = pet_attributes, transformations = []\<rparr> ''owner'' pa =
       JObj Plain [(''model'', JStr ''user'')]" for pa
    by (simp_all add: governing_def js_read_def js_or_def pet_attributes_def)
  have "recursiveSerialize (Suc n) \<lparr>attributes = pet_attributes, transformations = []\<rparr>
      (JObj Plain pet_values) JUndefined = Some (JObj Plain pet_values)" for n
    by (simp add: pet_values_def visit_def g attr_type_def js_or_def js_get_def
        hasOwnProperty_def Let_def)
  then show ?thesis
    by (simp add: pets_fields serialize_def of_option_def js_get_def pet_values_def
        del: recursiveSerialize.simps depth.simps)
qed

lemma pets_createValues:
  "createValues pets (pet_values, pet_assoc) meta =
     [AdapterCreate (JObj Plain pet_values) meta, AfterCreate (JObj Plain pet_values),
      Callback JNull (JObj Plain pet_values)]"
proof -
  have "stamp None d v = v" for d v by (simp add: stamp_def)
  moreover have "unserialize (transformer pets) pet_values = pet_values"
    by (simp add: unserialize_def pets_fields)
  ultimately show ?thesis
    by (simp add: createValues_def Let_def pets_serialize after_create_def pet_assoc_def
        pets_fields(8-15))
qed

lemma pets_object:
  "object_at pet_heap 0 = Some [(''name'', HStr ''a''), (''owner'', HRef 1)]"
  by (simp add: object_at_def cell_at_def pet_heap_def)

lemma pets_single: "single_record pet_heap (HRef 0) (HFun 0) meta 0"
  by (simp add: single_record_def pets_object)

lemma pets_create:
  "create pets pet_heap (HRef 0) (HFun 0) meta pet_run =
     (pet_heap_after,
      [Query ''owner'' (Create ''user'' owner_payload) None,
       Done ''owner'' JNull (Some owner_answer),
       Validate pet_values, BeforeCreate pet_values,
       AdapterCreate (JObj Plain pet_values) meta,
       AfterCreate (JObj Plain pet_values),
       Callback JNull (JObj Plain pet_values)])"
proof -
  have "createBelongsTo pets ([(''name'', JStr ''a''), (''kind'', JStr ''dog'')], pet_assoc)
      (after_belongsTo pets pet_assoc meta) HUndefined pet_run =
    [Query ''owner'' (Create ''user'' owner_payload) None,
     Done ''owner'' JNull (Some owner_answer)] @ after_belongsTo pets pet_assoc meta JNull pet_values"
    by (rule pets_createBelongsTo) (simp_all add: pets_query pets_answer pets_fields(6))
  then show ?thesis
    by (simp add: create_single [OF pets_single] pets_processValues
        after_belongsTo_def beforeCallbacks_eq pets_createValues pets_fields(8-15))
qed

lemma strict_create:
  "create strict_pets pet_heap (HRef 0) (HFun 0) meta pet_run =
     (pet_heap_after,
      [Query ''owner'' (Create ''user'' owner_payload) None,
       Done ''owner'' JNull (Some owner_answer),
       Validate pet_values, BeforeCreate pet_values,
       Callback (JStr ''rejected'') JUndefined])"
proof -
  have "createBelongsTo strict_pets ([(''name'', JStr ''a''), (''kind'', JStr ''dog'')], pet_assoc)
      (after_belongsTo strict_pets pet_assoc meta) HUndefined pet_run =
    [Query ''owner'' (Create ''user'' owner_payload) None,
     Done ''owner'' JNull (Some owner_answer)] @
      after_belongsTo strict_pets pet_assoc meta JNull pet_values"
    by (rule pets_createBelongsTo)
      (simp_all add: strict_query strict_fields(6,7) pets_query pets_answer pets_fields(6))
  then show ?thesis
    by (simp add: create_single [OF pets_single] strict_processValues pets_processValues
        after_belongsTo_def beforeCallbacks_eq strict_fields pets_fields(8-15))
qed

text \<open>
  Claim C4 at a call with the context \<^verbatim>\<open>'ctx'\<close>.  The adapter is given the context; the query
  sent to the collection \<^verbatim>\<open>user\<close> for the owner carries none, because \<^verbatim>\<open>createBelongsTo\<close> is
  called with two arguments (line 51) and its parameter \<^verbatim>\<open>metaContainer\<close> is \<^verbatim>\<open>undefined\<close>.
\<close>

theorem create_drops_context:
  "create pets pet_heap (HRef 0) (HFun 0) (HStr ''ctx'') pet_run =
     (pet_heap_after,
      [Query ''owner'' (Create ''user'' owner_payload) None,
       Done ''owner'' JNull (Some owner_answer),
       Validate pet_values, BeforeCreate pet_values,
       AdapterCreate (JObj Plain pet_values) (HStr ''ctx''),
       AfterCreate (JObj Plain pet_values),
       Callback JNull (JObj Plain pet_values)]) \<and>
   belongsTo_query pets (models pet_assoc) (HStr ''ctx'') ''owner'' =
     Exec (Create ''user'' owner_payload) (Some (HStr ''ctx''))"
  by (simp add: pets_create pet_assoc_def pets_query)

theorem create_hooks_order_witness:
  "single_record pet_heap (HRef 0) (HFun 0) (HStr ''ctx'') 0 \<and>
   snd (create strict_pets pet_heap (HRef 0) (HFun 0) (HStr ''ctx'') pet_run) =
     [Query ''owner'' (Create ''user'' owner_payload) None,
      Done ''owner'' JNull (Some owner_answer),
      Validate pet_values, BeforeCreate pet_values,
      Callback (JStr ''rejected'') JUndefined] \<and>
   (let tr = snd (create strict_pets pet_heap (HRef 0) (HFun 0) (HStr ''ctx'') pet_run);
        assoc = snd (snd (processValues strict_pets pet_heap 0))
    in list_all is_silent tr \<or>
       (\<exists>R e R'. tr = R @ Callback e JUndefined # R' \<and> list_all is_silent R \<and>
          list_all is_silent R' \<and> truthy e) \<or>
       (\<exists>R v. resolved strict_pets (models assoc) HUndefined (map fst (models assoc)) R v \<and>
          tr = R @ Validate v #
            (if truthy (fst (validate strict_pets v))
             then [Callback (fst (validate strict_pets v)) JUndefined]
             else BeforeCreate (snd (validate strict_pets v)) #
               (if truthy (fst (beforeCreate strict_pets (snd (validate strict_pets v))))
                then [Callback (fst (beforeCreate strict_pets (snd (validate strict_pets v))))
                        JUndefined]
                else createValues strict_pets
                       (snd (beforeCreate strict_pets (snd (validate strict_pets v))), assoc)
                       (HStr ''ctx''))))) \<and>
   AdapterCreate (JObj Plain pet_values) (HStr ''ctx'') \<in>
     set (snd (create pets pet_heap (HRef 0) (HFun 0) (HStr ''ctx'') pet_run)) \<and>
   (\<exists>R v rest. snd (create pets pet_heap (HRef 0) (HFun 0) (HStr ''ctx'') pet_run) =
        R @ Validate v # BeforeCreate (snd (validate pets v)) #
          AdapterCreate (JObj Plain pet_values) (HStr ''ctx'') # rest \<and>
      list_all is_resolution R \<and>
      \<not> truthy (fst (validate pets v)) \<and>
      \<not> truthy (fst (beforeCreate pets (snd (validate pets v)))) \<and>
      list_all (\<lambda>x. \<not> is_write x) rest)"
proof -
  note strict = create_hooks_order [of strict_pets pet_heap "HRef 0" "HFun 0" "HStr ''ctx''" pet_run,
      unfolded Let_def, THEN conjunct2, THEN conjunct1, rule_format, OF pets_single]
  note loose = create_hooks_order [of pets pet_heap "HRef 0" "HFun 0" "HStr ''ctx''" pet_run,
      unfolded Let_def, THEN conjunct1, rule_format,
      of "AdapterCreate (JObj Plain pet_values) (HStr ''ctx'')"]
  have mem: "AdapterCreate (JObj Plain pet_values) (HStr ''ctx'') \<in>
     set (snd (create pets pet_heap (HRef 0) (HFun 0) (HStr ''ctx'') pet_run))"
    by (simp add: pets_create)
  have w: "is_write (AdapterCreate (JObj Plain pet_values) (HStr ''ctx''))" by simp
  note written = loose [OF conjI [OF mem w]]
  have run: "snd (create strict_pets pet_heap (HRef 0) (HFun 0) (HStr ''ctx'') pet_run) =
     [Query ''owner'' (Create ''user'' owner_payload) None,
      Done ''owner'' JNull (Some owner_answer),
      Validate pet_values, BeforeCreate pet_values,
      Callback (JStr ''rejected'') JUndefined]"
    by (simp add: strict_create)
  show ?thesis
    unfolding Let_def
    by (intro conjI pets_single run strict mem written)
qed












lemma batch_array: "array_at batch_heap (HRef 0) = Some [HRef 1, HUndefined, HNull, HRef 2]"
  by (simp add: array_at_def cell_at_def batch_heap_def)

text \<open>
  The claim as it is written fails for an array with empty entries: of
  \<^verbatim>\<open>[{name: 'a'}, undefined, null, {name: 'b'}]\<close> the two objects are handed on.
\<close>

theorem create_array_counterexample:
  "array_at batch_heap (HRef 0) = Some [HRef 1, HUndefined, HNull, HRef 2] \<and>
   create pets batch_heap (HRef 0) (HFun 0) HUndefined [] =
     (batch_heap, [CreateEach [HRef 1, HRef 2] (HFun 0) HUndefined])"
proof -
  have "cell_at batch_heap 0 = Some (CArray [HRef 1, HUndefined, HNull, HRef 2])"
    by (simp add: cell_at_def batch_heap_def)
  from create_array [OF this, of pets "HFun 0" HUndefined "[]"] batch_array
  show ?thesis by simp
qed

theorem create_array_filters_falsy_witness:
  "array_at batch_heap (HRef 0) = Some [HRef 1, HUndefined, HNull, HRef 2] \<and>
   create pets batch_heap (HRef 0) (HFun 0) HUndefined [] =
     (batch_heap, [CreateEach (filter htruthy [HRef 1, HUndefined, HNull, HRef 2]) (HFun 0)
                     HUndefined]) \<and>
   plain_at pet_heap (HRef 0) \<and> array_at (pet_heap @ batch_heap) (HRef 2) =
     Some [HRef 1, HUndefined, HNull, HRef 2] \<and>
   create pets (pet_heap @ batch_heap) (HRef 0) (HRef 2) HUndefined [] =
     (pet_heap @ batch_heap, [DeferredEach (filter htruthy [HRef 1, HUndefined, HNull, HRef 2])])"
proof -
  note th = create_array_filters_falsy [of batch_heap "HRef 0"
      "[HRef 1, HUndefined, HNull, HRef 2]" pets "HFun 0" HUndefined "[]"]
  from th [THEN conjunct1, rule_format, OF batch_array]
  have 1: "create pets batch_heap (HRef 0) (HFun 0) HUndefined [] =
     (batch_heap, [CreateEach (filter htruthy [HRef 1, HUndefined, HNull, HRef 2]) (HFun 0)
                     HUndefined])"
    by simp
  have p: "plain_at (pet_heap @ batch_heap) (HRef 0)"
    by (simp add: plain_at_def object_at_def cell_at_def pet_heap_def)
  have p': "plain_at pet_heap (HRef 0)"
    by (simp add: plain_at_def object_at_def cell_at_def pet_heap_def)
  have a: "array_at (pet_heap @ batch_heap) (HRef 2) = Some [HRef 1, HUndefined, HNull, HRef 2]"
    by (simp add: array_at_def cell_at_def pet_heap_def batch_heap_def)
  note th2 = create_array_filters_falsy [of "pet_heap @ batch_heap" "HRef 0"
      "[HRef 1, HUndefined, HNull, HRef 2]" pets "HRef 2" HUndefined "[]"]
  from th2 [THEN conjunct2, rule_format, OF conjI [OF p a]]
  have 2: "create pets (pet_heap @ batch_heap) (HRef 0) (HRef 2) HUndefined [] =
     (pet_heap @ batch_heap, [DeferredEach (filter htruthy [HRef 1, HUndefined, HNull, HRef 2])])"
    by simp
  from batch_array 1 p' a 2 show ?thesis by (intro conjI)
qed

lemma tag_defaults: "set_defaults tag_declarations 0 tag_heap = tag_heap_after"
  by (simp add: set_defaults_def set_default_def object_at_def cell_at_def
      default_missing_def hasOwnProperty_def hget_def cloneWith_def dealWithBuffers_def
      write_prop_def tag_heap_def tag_heap_after_def tag_declarations_def)

lemma tag_object: "object_at tag_heap 0 = Some [(''name'', HStr ''a'')]"
  by (simp add: object_at_def cell_at_def tag_heap_def)

text \<open>
  The claim as it is written fails for a default that holds an object: the copy of the array
  \<^verbatim>\<open>[{label: 'new'}]\<close> written under \<^verbatim>\<open>tags\<close> is a new array (the cell 3), and the object in it
  is the object of the declaration (the cell 2), not a copy.
\<close>

theorem defaults_shallow_counterexample:
  "fst (create tagged tag_heap (HRef 0) (HFun 0) HUndefined []) =
     [CObject [(''name'', HStr ''a''), (''tags'', HRef 3)],
      CArray [HRef 2],
      CObject [(''label'', HStr ''new'')],
      CArray [HRef 2]] \<and>
   map_of (declarations tagged) ''tags'' = Some (Some (Literal (HRef 1))) \<and>
   cell_at tag_heap 1 = Some (CArray [HRef 2])"
proof -
  have s: "single_record tag_heap (HRef 0) (HFun 0) HUndefined 0"
    by (simp add: single_record_def tag_object)
  have d: "declarations tagged = tag_declarations" by (simp add: tagged_def)
  show ?thesis
    by (simp add: create_single [OF s] processValues_def Let_def d tag_defaults
        split: prod.splits)
      (simp add: tag_heap_after_def tag_declarations_def cell_at_def tag_heap_def)
qed

theorem defaults_applied_witness:
  "distinct (map fst tag_declarations) \<and>
   tag_declarations = [(''name'', None)] @ (''tags'', Some (Literal (HRef 1))) # [] \<and>
   object_at tag_heap 0 = Some [(''name'', HStr ''a'')] \<and>
   default_missing [(''name'', HStr ''a'')] ''tags'' \<and>
   (\<exists>es'. object_at (set_defaults tag_declarations 0 tag_heap) 0 = Some es' \<and>
      (\<exists>n. map_of es' ''tags'' = Some (HRef n) \<and>
         cell_at (set_defaults [(''name'', None)] 0 tag_heap) n = None \<and>
         cell_at (set_defaults tag_declarations 0 tag_heap) n = Some (CArray [HRef 2]) \<and>
         cell_at (set_defaults tag_declarations 0 tag_heap) 1 = Some (CArray [HRef 2])))"
proof -
  have 1: "distinct (map fst tag_declarations)" by (simp add: tag_declarations_def)
  have 2: "\<forall>kd\<in>set tag_declarations. quiet_default (snd kd)"
    by (simp add: tag_declarations_def quiet_default_def)
  have 3: "tag_declarations = [(''name'', None)] @ (''tags'', Some (Literal (HRef 1))) # []"
    by (simp add: tag_declarations_def)
  have 4: "default_missing [(''name'', HStr ''a'')] ''tags''"
    by (simp add: default_missing_def hasOwnProperty_def)
  have pre: "set_defaults [(''name'', None)] 0 tag_heap = tag_heap"
    by (simp add: set_defaults_def set_default_def tag_object default_missing_def
        hasOwnProperty_def hget_def)
  have c: "cell_at tag_heap (Suc 0) = Some (CArray [HRef 2])"
    by (simp add: cell_at_def tag_heap_def)
  from defaults_applied [OF 1 2 3 tag_object 4]
  have "\<exists>es'. object_at (set_defaults tag_declarations 0 tag_heap) 0 = Some es' \<and>
      (\<exists>n. map_of es' ''tags'' = Some (HRef n) \<and>
         cell_at (set_defaults [(''name'', None)] 0 tag_heap) n = None \<and>
         cell_at (set_defaults tag_declarations 0 tag_heap) n = Some (CArray [HRef 2]) \<and>
         cell_at (set_defaults tag_declarations 0 tag_heap) 1 = Some (CArray [HRef 2]))"
    by (simp add: pre c)
  with 1 3 tag_object 4 show ?thesis by (intro conjI)
qed


end
